theory Spec2Isabelle
  imports Main "HOL-Library.Extended_Nat"
begin

section \<open>Character ranges and character sets (char-set.ts)\<close>

text \<open>
  A \<open>CharRange\<close> is the interface \<open>{ min, max }\<close> of the source; the fields carry the
  suffix \<open>_r\<close> because \<open>min\<close> and \<open>max\<close> are constants of HOL. JavaScript numbers are
  modelled as unbounded integers (the source requires safe integers). A \<open>CharSet\<close> is the
  class with its two fields \<open>maximum\<close> and \<open>ranges\<close>.
\<close>

record CharRange =
  min_r :: int
  max_r :: int

record CharSet =
  maximum :: int
  ranges :: "CharRange list"

text \<open>
  Every \<open>throw\<close> of the two source files is a value of \<open>error\<close>; \<open>TypeError\<close> is what
  JavaScript throws where the source asserts with \<open>!\<close> that a value is defined and
  destructures it. The three
  \<open>RangeError\<close>s of char-set.ts are told apart by their message: the one of
  \<open>checkCompatibility\<close> (the specification's DomainMismatch), and the first and the second
  one of \<open>checkRange\<close> (the specification's RangeOutOfBounds).
\<close>

datatype error =
    RangeError_maximum int int
  | RangeError_min int
  | RangeError_max int int
  | AlreadyLinked
  | NotLinked
  | TooManyNodesError int
  | StateEliminationFailed
  | AssertNever
  | TypeError

text \<open>An argument that is either a \<open>CharSet\<close> or an iterable of ranges, or a single range.\<close>

datatype ranges_or_set = OfSet CharSet | OfRanges "CharRange list"

datatype set_or_range = SetArg CharSet | RangeArg CharRange

definition isEmpty :: "CharSet \<Rightarrow> bool" where
  "isEmpty s = (length (ranges s) = 0)"

definition isAll :: "CharSet \<Rightarrow> bool" where
  "isAll s = (case ranges s of
      [r] \<Rightarrow> min_r r = 0 \<and> max_r r = maximum s
    | _ \<Rightarrow> False)"

definition CharSet_empty :: "int \<Rightarrow> CharSet" where
  "CharSet_empty m = \<lparr>maximum = m, ranges = []\<rparr>"

definition CharSet_all :: "int \<Rightarrow> CharSet" where
  "CharSet_all m = \<lparr>maximum = m, ranges = [\<lparr>min_r = 0, max_r = m\<rparr>]\<rparr>"

text \<open>
  The source interns the empty and the full set per \<open>maximum\<close> in two module-level maps.
  \<open>empty_cached\<close> and \<open>all_cached\<close> are the two static methods with the map passed
  explicitly; on a map that only they have written they return \<open>CharSet_empty\<close> and
  \<open>CharSet_all\<close> (lemmas \<open>empty_cached_value\<close>, \<open>all_cached_value\<close> below), which is what
  the rest of the model uses. Object identity is observed only by the shortcut
  \<open>other === this\<close> of \<open>equals\<close> and \<open>compare\<close>, which returns what the structural
  comparison returns on equal values.
\<close>

definition empty_cached :: "(int \<rightharpoonup> CharSet) \<Rightarrow> int \<Rightarrow> CharSet \<times> (int \<rightharpoonup> CharSet)" where
  "empty_cached emptyCache m =
     (case emptyCache m of
        None \<Rightarrow> (let emptySet = \<lparr>maximum = m, ranges = []\<rparr>
                 in (emptySet, emptyCache(m \<mapsto> emptySet)))
      | Some emptySet \<Rightarrow> (emptySet, emptyCache))"

definition all_cached :: "(int \<rightharpoonup> CharSet) \<Rightarrow> int \<Rightarrow> CharSet \<times> (int \<rightharpoonup> CharSet)" where
  "all_cached allCache m =
     (case allCache m of
        None \<Rightarrow> (let allSet = \<lparr>maximum = m, ranges = [\<lparr>min_r = 0, max_r = m\<rparr>]\<rparr>
                 in (allSet, allCache(m \<mapsto> allSet)))
      | Some allSet \<Rightarrow> (allSet, allCache))"

definition checkCompatibility :: "CharSet \<Rightarrow> CharSet \<Rightarrow> error + unit" where
  "checkCompatibility this v =
     (if maximum v \<noteq> maximum this then Inl (RangeError_maximum (maximum v) (maximum this))
      else Inr ())"

definition toRanges :: "CharSet \<Rightarrow> ranges_or_set \<Rightarrow> error + CharRange list" where
  "toRanges this v =
     (case v of
        OfSet s \<Rightarrow> (case checkCompatibility this s of Inl e \<Rightarrow> Inl e | Inr _ \<Rightarrow> Inr (ranges s))
      | OfRanges rs \<Rightarrow> Inr rs)"

definition checkRange :: "CharSet \<Rightarrow> CharRange \<Rightarrow> error + CharRange" where
  "checkRange this r =
     (if min_r r < 0 \<or> min_r r > max_r r \<or> max_r r > maximum this then Inl (RangeError_min (min_r r))
      else if max_r r > maximum this then Inl (RangeError_max (max_r r) (maximum this))
      else Inr r)"

subsection \<open>equals and compare\<close>

fun equals_loop :: "CharRange list \<Rightarrow> CharRange list \<Rightarrow> bool" where
  "equals_loop (thisR # ts) (otherR # os) =
     (if min_r thisR \<noteq> min_r otherR \<or> max_r thisR \<noteq> max_r otherR then False
      else equals_loop ts os)"
| "equals_loop _ _ = True"

definition CharSet_equals :: "CharSet \<Rightarrow> CharSet \<Rightarrow> bool" where
  "CharSet_equals this other =
     (if maximum this \<noteq> maximum other then False
      else if length (ranges this) \<noteq> length (ranges other) then False
      else equals_loop (ranges this) (ranges other))"

fun compare_loop :: "CharRange list \<Rightarrow> CharRange list \<Rightarrow> int" where
  "compare_loop (thisR # ts) (otherR # os) =
     (if min_r thisR \<noteq> min_r otherR then min_r thisR - min_r otherR
      else if max_r thisR \<noteq> max_r otherR then max_r thisR - max_r otherR
      else compare_loop ts os)"
| "compare_loop _ _ = 0"

definition CharSet_compare :: "CharSet \<Rightarrow> CharSet \<Rightarrow> int" where
  "CharSet_compare this other =
     (if maximum this \<noteq> maximum other then maximum this - maximum other
      else if isEmpty this then (if isEmpty other then 0 else -1)
      else if isEmpty other then 1
      else if min_r (hd (ranges this)) \<noteq> min_r (hd (ranges other))
        then min_r (hd (ranges this)) - min_r (hd (ranges other))
      else if length (ranges this) \<noteq> length (ranges other)
        then int (length (ranges this)) - int (length (ranges other))
      else compare_loop (ranges this) (ranges other))"

subsection \<open>The linear sweeps over two range arrays\<close>

text \<open>
  The sweeps keep two indices \<open>aIndex\<close>, \<open>bIndex\<close> and the current items
  \<open>aRange = a[aIndex]\<close>, \<open>bRange = b[bIndex]\<close>, which are \<open>undefined\<close> past the end. In the
  model the two list arguments are the current item followed by the items after the
  index; \<open>a[++aIndex]\<close> is the tail, and an item replaced in \<open>withoutRanges\<close>
  (\<open>aRange = { min: bRange.max + 1, max: aRange.max }\<close>) is a new head.
\<close>

fun intersectRanges :: "CharRange list \<Rightarrow> CharRange list \<Rightarrow> CharRange list" where
  "intersectRanges (aRange # as) (bRange # bs) =
     (if max_r aRange < min_r bRange then intersectRanges as (bRange # bs)
      else if max_r bRange < min_r aRange then intersectRanges (aRange # as) bs
      else \<lparr>min_r = max (min_r aRange) (min_r bRange), max_r = min (max_r aRange) (max_r bRange)\<rparr> #
        (if max_r aRange < max_r bRange then intersectRanges as (bRange # bs)
         else if max_r bRange < max_r aRange then intersectRanges (aRange # as) bs
         else intersectRanges as bs))"
| "intersectRanges _ _ = []"

fun unionRanges_merge :: "CharRange list \<Rightarrow> CharRange list \<Rightarrow> CharRange list" where
  "unionRanges_merge (aRange # as) (bRange # bs) =
     (if min_r aRange \<le> min_r bRange then aRange # unionRanges_merge as (bRange # bs)
      else bRange # unionRanges_merge (aRange # as) bs)"
| "unionRanges_merge [] bs = bs"
| "unionRanges_merge as [] = as"

fun withoutRanges :: "CharRange list \<Rightarrow> CharRange list \<Rightarrow> CharRange list" where
  "withoutRanges (aRange # as) (bRange # bs) =
     (if max_r aRange < min_r bRange then aRange # withoutRanges as (bRange # bs)
      else if max_r bRange < min_r aRange then withoutRanges (aRange # as) bs
      else if min_r aRange < min_r bRange then
        \<lparr>min_r = min_r aRange, max_r = min_r bRange - 1\<rparr> #
          (if max_r bRange < max_r aRange
           then withoutRanges (\<lparr>min_r = max_r bRange + 1, max_r = max_r aRange\<rparr> # as) bs
           else withoutRanges as (bRange # bs))
      else
        (if max_r aRange > max_r bRange
         then withoutRanges (\<lparr>min_r = max_r bRange + 1, max_r = max_r aRange\<rparr> # as) bs
         else withoutRanges as (bRange # bs)))"
| "withoutRanges as [] = as"
| "withoutRanges [] bs = []"

subsection \<open>optimizeSortedRanges, in place\<close>

text \<open>
  The loop of \<open>optimizeSortedRanges\<close> with its array, its index \<open>i\<close> and its
  \<open>deleteCount\<close>. The bound \<open>max = ranges.length - 1\<close> is computed once before the loop;
  \<open>n\<close> is \<open>ranges.length\<close> at that moment and \<open>i < max\<close> is \<open>i + 1 < n\<close>. The loop never
  reads or writes out of range (\<open>deleteCount \<le> i\<close>), so the indices are natural numbers.
\<close>

function optimizeSortedRanges_loop :: "nat \<Rightarrow> nat \<Rightarrow> nat \<Rightarrow> CharRange list \<Rightarrow> nat \<times> CharRange list" where
  "optimizeSortedRanges_loop n i deleteCount rs =
     (if i + 1 < n then
        (let current = rs ! (i - deleteCount); next = rs ! (i + 1) in
         if max_r current \<ge> max_r next then
           optimizeSortedRanges_loop n (i + 1) (deleteCount + 1) rs
         else if min_r next \<le> max_r current + 1 then
           optimizeSortedRanges_loop n (i + 1) (deleteCount + 1)
             (rs[i - deleteCount := \<lparr>min_r = min_r current, max_r = max_r next\<rparr>])
         else
           optimizeSortedRanges_loop n (i + 1) deleteCount (rs[i - deleteCount + 1 := next]))
      else (deleteCount, rs))"
  by pat_completeness auto
termination
  by (relation "measure (\<lambda>(n, i, d, rs). n - i)") auto

definition optimizeSortedRanges :: "CharRange list \<Rightarrow> CharRange list" where
  "optimizeSortedRanges rs =
     (case optimizeSortedRanges_loop (length rs) 0 0 rs of
        (deleteCount, rs') \<Rightarrow>
          if deleteCount \<noteq> 0 then take (length rs' - deleteCount) rs' else rs')"

text \<open>
  \<open>Array.prototype.sort\<close> with the comparator \<open>a.min - b.min\<close> is a stable sort by
  \<open>min\<close> (ECMAScript 2019); \<open>sort_key\<close> is the stable insertion sort of HOL.
\<close>

definition optimizeRanges :: "CharRange list \<Rightarrow> CharRange list" where
  "optimizeRanges rs = optimizeSortedRanges (sort_key min_r rs)"

definition unionRanges :: "CharRange list \<Rightarrow> CharRange list \<Rightarrow> CharRange list" where
  "unionRanges a b = optimizeSortedRanges (unionRanges_merge a b)"

subsection \<open>negateRanges\<close>

text \<open>The loop \<open>for (let i = 1; i < ranges.length; i++)\<close> over consecutive pairs.\<close>

fun negateRanges_gaps :: "CharRange list \<Rightarrow> CharRange list" where
  "negateRanges_gaps (p # q # rs) =
     \<lparr>min_r = max_r p + 1, max_r = min_r q - 1\<rparr> # negateRanges_gaps (q # rs)"
| "negateRanges_gaps _ = []"

definition negateRanges :: "CharRange list \<Rightarrow> int \<Rightarrow> CharRange list" where
  "negateRanges rs m =
     (if length rs = 0 then [\<lparr>min_r = 0, max_r = m\<rparr>]
      else
        (let first = hd rs; lst = last rs in
         (if min_r first > 0 then [\<lparr>min_r = 0, max_r = min_r first - 1\<rparr>] else []) @
         negateRanges_gaps rs @
         (if max_r lst < m then [\<lparr>min_r = max_r lst + 1, max_r = m\<rparr>] else [])))"

subsection \<open>The binary searches for a single range\<close>

function hasEveryOfRange_loop :: "CharRange list \<Rightarrow> int \<Rightarrow> int \<Rightarrow> nat \<Rightarrow> nat \<Rightarrow> bool" where
  "hasEveryOfRange_loop rs mn mx low high =
     (if low < high then
        (let m = low + (high - low) div 2; mRange = rs ! m; mMin = min_r mRange in
         if mMin = mn then mx \<le> max_r mRange
         else if mMin < mn then
           (if mx \<le> max_r mRange then True else hasEveryOfRange_loop rs mn mx (m + 1) high)
         else hasEveryOfRange_loop rs mn mx low m)
      else False)"
  by pat_completeness auto
termination
  by (relation "measure (\<lambda>(rs, mn, mx, low, high). high - low)") auto

definition hasEveryOfRange :: "CharRange list \<Rightarrow> CharRange \<Rightarrow> bool" where
  "hasEveryOfRange rs r =
     (let l = length rs; mn = min_r r; mx = max_r r in
      if l = 0 then False
      else if mn < min_r (rs ! 0) \<or> mx > max_r (rs ! (l - 1)) then False
      else if l = 1 then True
      else hasEveryOfRange_loop rs mn mx 0 l)"

function commonCharacterOfRange_loop :: "CharRange list \<Rightarrow> int \<Rightarrow> int \<Rightarrow> nat \<Rightarrow> nat \<Rightarrow> int option" where
  "commonCharacterOfRange_loop rs mn mx low high =
     (if low < high then
        (let m = low + (high - low) div 2; mRange = rs ! m; mMin = min_r mRange in
         if mMin = mn then Some mn
         else if mMin < mn then
           (if mn \<le> max_r mRange then Some mn else commonCharacterOfRange_loop rs mn mx (m + 1) high)
         else
           (if mMin \<le> mx then Some mMin else commonCharacterOfRange_loop rs mn mx low m))
      else None)"
  by pat_completeness auto
termination
  by (relation "measure (\<lambda>(rs, mn, mx, low, high). high - low)") auto

definition commonCharacterOfRange :: "CharRange list \<Rightarrow> CharRange \<Rightarrow> int option" where
  "commonCharacterOfRange rs r =
     (let l = length rs; mn = min_r r; mx = max_r r in
      if l = 0 then None
      else if mx < min_r (rs ! 0) \<or> mn > max_r (rs ! (l - 1)) then None
      else commonCharacterOfRange_loop rs mn mx 0 l)"

subsection \<open>The methods of CharSet\<close>

definition CharSet_negate :: "CharSet \<Rightarrow> CharSet" where
  "CharSet_negate this = \<lparr>maximum = maximum this, ranges = negateRanges (ranges this) (maximum this)\<rparr>"

text \<open>
  The general path of \<open>union\<close>: every range of every argument is pushed after
  \<open>checkRange\<close>; the first failing check aborts the call.
\<close>

fun checkRange_all :: "CharSet \<Rightarrow> CharRange list \<Rightarrow> error + CharRange list" where
  "checkRange_all this [] = Inr []"
| "checkRange_all this (r # rs) =
     (case checkRange this r of
        Inl e \<Rightarrow> Inl e
      | Inr r' \<Rightarrow> (case checkRange_all this rs of Inl e \<Rightarrow> Inl e | Inr rs' \<Rightarrow> Inr (r' # rs')))"

fun union_push :: "CharSet \<Rightarrow> ranges_or_set list \<Rightarrow> CharRange list \<Rightarrow> error + CharRange list" where
  "union_push this [] newRanges = Inr newRanges"
| "union_push this (rangesOrSet # data) newRanges =
     (case toRanges this rangesOrSet of
        Inl e \<Rightarrow> Inl e
      | Inr rs \<Rightarrow>
          (case checkRange_all this rs of
             Inl e \<Rightarrow> Inl e
           | Inr rs' \<Rightarrow> union_push this data (newRanges @ rs')))"

definition CharSet_union :: "CharSet \<Rightarrow> ranges_or_set list \<Rightarrow> error + CharSet" where
  "CharSet_union this data =
     (case data of
        [OfSet first] \<Rightarrow>
          (case checkCompatibility this first of
             Inl e \<Rightarrow> Inl e
           | Inr _ \<Rightarrow>
               if length (ranges first) = 0 then Inr this
               else Inr \<lparr>maximum = maximum this, ranges = unionRanges (ranges this) (ranges first)\<rparr>)
      | _ \<Rightarrow>
          (case union_push this data (ranges this) of
             Inl e \<Rightarrow> Inl e
           | Inr newRanges \<Rightarrow> Inr \<lparr>maximum = maximum this, ranges = optimizeRanges newRanges\<rparr>))"

text \<open>The argument of \<open>intersect\<close> and \<open>without\<close> as a set \<open>other\<close>.\<close>

definition other_set :: "CharSet \<Rightarrow> ranges_or_set \<Rightarrow> error + CharSet" where
  "other_set this data =
     (case data of
        OfSet s \<Rightarrow> (case checkCompatibility this s of Inl e \<Rightarrow> Inl e | Inr _ \<Rightarrow> Inr s)
      | OfRanges rs \<Rightarrow> CharSet_union (CharSet_empty (maximum this)) [OfRanges rs])"

definition CharSet_intersect :: "CharSet \<Rightarrow> ranges_or_set \<Rightarrow> error + CharSet" where
  "CharSet_intersect this data =
     (case other_set this data of
        Inl e \<Rightarrow> Inl e
      | Inr other \<Rightarrow>
          (let newRanges = intersectRanges (ranges this) (ranges other) in
           if length newRanges = 0 then Inr (CharSet_empty (maximum this))
           else Inr \<lparr>maximum = maximum this, ranges = newRanges\<rparr>))"

definition CharSet_without :: "CharSet \<Rightarrow> ranges_or_set \<Rightarrow> error + CharSet" where
  "CharSet_without this data =
     (case other_set this data of
        Inl e \<Rightarrow> Inl e
      | Inr other \<Rightarrow>
          (let newRanges = withoutRanges (ranges this) (ranges other) in
           if length newRanges = 0 then Inr (CharSet_empty (maximum this))
           else Inr \<lparr>maximum = maximum this, ranges = newRanges\<rparr>))"

definition has :: "CharSet \<Rightarrow> int \<Rightarrow> bool" where
  "has this character = hasEveryOfRange (ranges this) \<lparr>min_r = character, max_r = character\<rparr>"

text \<open>
  The sweep of \<open>isSupersetOf\<close>: the loop runs while both items are defined and the
  method returns \<open>!otherItem\<close> after it.
\<close>

fun isSupersetOf_loop :: "CharRange list \<Rightarrow> CharRange list \<Rightarrow> bool" where
  "isSupersetOf_loop (thisItem # ts) (otherItem # os) =
     (if min_r thisItem \<le> min_r otherItem \<and> max_r thisItem \<ge> max_r otherItem
        then isSupersetOf_loop (thisItem # ts) os
      else if max_r thisItem < min_r otherItem
        then isSupersetOf_loop ts (otherItem # os)
      else False)"
| "isSupersetOf_loop ts [] = True"
| "isSupersetOf_loop [] (otherItem # os) = False"

definition isSupersetOf :: "CharSet \<Rightarrow> set_or_range \<Rightarrow> bool" where
  "isSupersetOf this other =
     (case other of
        RangeArg r \<Rightarrow> hasEveryOfRange (ranges this) r
      | SetArg s \<Rightarrow> isSupersetOf_loop (ranges this) (ranges s))"

definition isSubsetOf :: "CharSet \<Rightarrow> set_or_range \<Rightarrow> bool" where
  "isSubsetOf this other =
     (case other of
        SetArg s \<Rightarrow> isSupersetOf s (SetArg this)
      | RangeArg r \<Rightarrow>
          if isEmpty this then True
          else min_r r \<le> min_r (ranges this ! 0) \<and>
               max_r (ranges this ! (length (ranges this) - 1)) \<le> max_r r)"

fun commonCharacter_loop :: "CharRange list \<Rightarrow> CharRange list \<Rightarrow> int option" where
  "commonCharacter_loop (thisItem # ts) (otherItem # os) =
     (if max_r otherItem < min_r thisItem then commonCharacter_loop (thisItem # ts) os
      else if max_r thisItem < min_r otherItem then commonCharacter_loop ts (otherItem # os)
      else Some (max (min_r thisItem) (min_r otherItem)))"
| "commonCharacter_loop _ _ = None"

definition commonCharacter :: "CharSet \<Rightarrow> set_or_range \<Rightarrow> int option" where
  "commonCharacter this other =
     (case other of
        RangeArg r \<Rightarrow> commonCharacterOfRange (ranges this) r
      | SetArg s \<Rightarrow> commonCharacter_loop (ranges this) (ranges s))"

definition isDisjointWith :: "CharSet \<Rightarrow> set_or_range \<Rightarrow> bool" where
  "isDisjointWith this other = (commonCharacter this other = None)"
section \<open>The expression tree and the simplifier (to-regex.ts)\<close>

text \<open>
  The node types of ast.ts as to-regex.ts uses them (\<open>Simple<...>\<close>, no source
  positions): an \<open>Element\<close> is a \<open>CharacterClass\<close>, an \<open>Alternation\<close>, a \<open>Quantifier\<close>
  (alternatives, \<open>min\<close>, \<open>max\<close>) or an \<open>Assertion\<close> (\<open>kind\<close>, \<open>negate\<close>, alternatives); a
  \<open>Concatenation\<close> holds elements; an \<open>Expression\<close> holds alternatives.
  \<open>Quantifier.max\<close> may be \<open>Infinity\<close>, so it is an extended natural number.
  The mutations of the source (\<open>a.elements.push(...)\<close>, \<open>e.min = 0\<close>) become new values;
  every function that mutates its argument returns the mutated argument.
\<close>

datatype element =
    CharacterClass CharSet
  | Alternation "concatenation list"
  | Quantifier "concatenation list" nat enat
  | Assertion string bool "concatenation list"
and concatenation =
    Concatenation "element list"

datatype expression = Expression "concatenation list"

text \<open>\<open>Simple<Element | Concatenation>\<close>, which is also the type of a transition's label.\<close>

datatype transition = Elem element | Concat concatenation

fun elements :: "concatenation \<Rightarrow> element list" where
  "elements (Concatenation es) = es"

subsection \<open>structurallyEqual\<close>

fun structurallyEqual_element :: "element \<Rightarrow> element \<Rightarrow> bool"
  and structurallyEqualConcatenation :: "concatenation \<Rightarrow> concatenation \<Rightarrow> bool"
  and structurallyEqualAlternatives_loop :: "concatenation list \<Rightarrow> concatenation list \<Rightarrow> bool"
  and structurallyEqualConcatenation_loop :: "element list \<Rightarrow> element list \<Rightarrow> bool" where
  "structurallyEqual_element (CharacterClass a) b =
     (case b of CharacterClass other \<Rightarrow> CharSet_equals a other | _ \<Rightarrow> False)"
| "structurallyEqual_element (Alternation a) b =
     (case b of
        Alternation other \<Rightarrow>
          (if length a \<noteq> length other then False else structurallyEqualAlternatives_loop a other)
      | _ \<Rightarrow> False)"
| "structurallyEqual_element (Quantifier a mn mx) b =
     (case b of
        Quantifier other omn omx \<Rightarrow>
          (if mn \<noteq> omn \<or> mx \<noteq> omx then False
           else if length a \<noteq> length other then False
           else structurallyEqualAlternatives_loop a other)
      | _ \<Rightarrow> False)"
| "structurallyEqual_element (Assertion kind negate a) b =
     (case b of
        Assertion okind onegate other \<Rightarrow>
          (if kind \<noteq> okind \<or> negate \<noteq> onegate then False
           else if length a \<noteq> length other then False
           else structurallyEqualAlternatives_loop a other)
      | _ \<Rightarrow> False)"
| "structurallyEqualConcatenation (Concatenation a) b =
     (case b of
        Concatenation other \<Rightarrow>
          (if length a \<noteq> length other then False else structurallyEqualConcatenation_loop a other))"
| "structurallyEqualAlternatives_loop [] bs = True"
| "structurallyEqualAlternatives_loop (a # as) bs =
     (case bs of
        [] \<Rightarrow> True
      | b # bs' \<Rightarrow>
          (if \<not> structurallyEqualConcatenation a b then False
           else structurallyEqualAlternatives_loop as bs'))"
| "structurallyEqualConcatenation_loop [] bs = True"
| "structurallyEqualConcatenation_loop (a # as) bs =
     (case bs of
        [] \<Rightarrow> True
      | b # bs' \<Rightarrow>
          (if \<not> structurallyEqual_element a b then False
           else structurallyEqualConcatenation_loop as bs'))"

definition structurallyEqualAlternatives :: "concatenation list \<Rightarrow> concatenation list \<Rightarrow> bool" where
  "structurallyEqualAlternatives a b =
     (if length a \<noteq> length b then False else structurallyEqualAlternatives_loop a b)"

definition structurallyEqual :: "transition \<Rightarrow> transition \<Rightarrow> bool" where
  "structurallyEqual a b =
     (case (a, b) of
        (Elem x, Elem y) \<Rightarrow> structurallyEqual_element x y
      | (Concat x, Concat y) \<Rightarrow> structurallyEqualConcatenation x y
      | _ \<Rightarrow> False)"

subsection \<open>Small helpers\<close>

definition safeMultiply :: "enat \<Rightarrow> enat \<Rightarrow> enat" where
  "safeMultiply a b = (if a = 0 \<or> b = 0 then 0 else a * b)"

text \<open>\<open>getSingleElement(parent, "Quantifier")\<close>, the only use in the file.\<close>

definition getSingleElement_Quantifier :: "concatenation list \<Rightarrow> (concatenation list \<times> nat \<times> enat) option" where
  "getSingleElement_Quantifier alternatives =
     (case alternatives of
        [Concatenation [Quantifier alts mn mx]] \<Rightarrow> Some (alts, mn, mx)
      | _ \<Rightarrow> None)"

text \<open>An alternative that consists of exactly one element, a character class.\<close>

definition single_CharacterClass :: "concatenation \<Rightarrow> CharSet option" where
  "single_CharacterClass c = (case c of Concatenation [CharacterClass cs] \<Rightarrow> Some cs | _ \<Rightarrow> None)"

fun canMatchEmptyString_element :: "element \<Rightarrow> bool"
  and canMatchEmptyString_concatenation :: "concatenation \<Rightarrow> bool"
  and canMatchEmptyString_some :: "concatenation list \<Rightarrow> bool"
  and canMatchEmptyString_every :: "element list \<Rightarrow> bool" where
  "canMatchEmptyString_element (Assertion kind negate alts) = False"
| "canMatchEmptyString_element (CharacterClass cs) = False"
| "canMatchEmptyString_element (Alternation alts) = canMatchEmptyString_some alts"
| "canMatchEmptyString_element (Quantifier alts mn mx) = (mn = 0 \<or> canMatchEmptyString_some alts)"
| "canMatchEmptyString_concatenation (Concatenation es) = canMatchEmptyString_every es"
| "canMatchEmptyString_some [] = False"
| "canMatchEmptyString_some (c # cs) = (canMatchEmptyString_concatenation c \<or> canMatchEmptyString_some cs)"
| "canMatchEmptyString_every [] = True"
| "canMatchEmptyString_every (e # es) = (canMatchEmptyString_element e \<and> canMatchEmptyString_every es)"

definition canMatchEmptyString_expression :: "expression \<Rightarrow> bool" where
  "canMatchEmptyString_expression e = (case e of Expression alts \<Rightarrow> canMatchEmptyString_some alts)"

text \<open>
  \<open>equalToQuantifiedElement(quant, element)\<close>; \<open>quant\<close> is given by its alternatives, the
  only field the function reads.
\<close>

fun equalToQuantifiedElement_element :: "concatenation list \<Rightarrow> element \<Rightarrow> bool" where
  "equalToQuantifiedElement_element qalts (Alternation alts) = structurallyEqualAlternatives qalts alts"
| "equalToQuantifiedElement_element qalts e =
     (case qalts of
        [Concatenation [x]] \<Rightarrow> structurallyEqual_element x e
      | _ \<Rightarrow> False)"

fun equalToQuantifiedElement :: "concatenation list \<Rightarrow> transition \<Rightarrow> bool" where
  "equalToQuantifiedElement qalts (Elem e) = equalToQuantifiedElement_element qalts e"
| "equalToQuantifiedElement qalts (Concat (Concatenation es)) =
     (case es of
        [e] \<Rightarrow> equalToQuantifiedElement_element qalts e
      | _ \<Rightarrow> (case qalts of [q] \<Rightarrow> structurallyEqualConcatenation q (Concatenation es) | _ \<Rightarrow> False))"

subsection \<open>The rewrites of the simplifier\<close>

text \<open>
  Each rewrite of the source mutates a node and returns whether it changed something; the
  model returns that flag and the node's new content. The rewrites of a \<open>Parent\<close> read
  and write only \<open>parent.alternatives\<close>, so they are functions of the alternatives.

  \<open>inlineAlternatives\<close>: the loop re-examines index \<open>i\<close> after a splice (\<open>i--\<close>), so the
  spliced-in alternatives are examined next.
\<close>

definition single_Alternation :: "concatenation \<Rightarrow> concatenation list option" where
  "single_Alternation c = (case c of Concatenation [Alternation alts] \<Rightarrow> Some alts | _ \<Rightarrow> None)"

function inlineAlternatives :: "concatenation list \<Rightarrow> bool \<times> concatenation list" where
  "inlineAlternatives [] = (False, [])"
| "inlineAlternatives (c # rest) =
     (case single_Alternation c of
        Some alts \<Rightarrow> (True, snd (inlineAlternatives (alts @ rest)))
      | None \<Rightarrow> (case inlineAlternatives rest of (inlined, rest') \<Rightarrow> (inlined, c # rest')))"
  by pat_completeness auto
termination
  by (relation "measure (size_list size)")
     (auto simp: single_Alternation_def split: concatenation.splits list.splits element.splits)

text \<open>
  \<open>optimizeEmptyString\<close>. \<open>single_Quantifier\<close> tests for an alternative with exactly
  one element, a quantifier. \<open>lower_first_quantifier\<close> is the \<open>for\<close> loop that sets
  \<open>min = 0\<close> in the first alternative that is a single quantifier with \<open>min = 1\<close> and
  then breaks; it returns \<open>changed\<close> and the alternatives.
\<close>

definition single_Quantifier :: "concatenation \<Rightarrow> (concatenation list \<times> nat \<times> enat) option" where
  "single_Quantifier c = (case c of Concatenation [Quantifier alts mn mx] \<Rightarrow> Some (alts, mn, mx) | _ \<Rightarrow> None)"

fun lower_first_quantifier :: "concatenation list \<Rightarrow> bool \<times> concatenation list" where
  "lower_first_quantifier [] = (False, [])"
| "lower_first_quantifier (alt # rest) =
     (case single_Quantifier alt of
        Some (alts, mn, mx) \<Rightarrow>
          (if mn = 1 then (True, Concatenation [Quantifier alts 0 mx] # rest)
           else (case lower_first_quantifier rest of (changed, rest') \<Rightarrow> (changed, alt # rest')))
      | None \<Rightarrow> (case lower_first_quantifier rest of (changed, rest') \<Rightarrow> (changed, alt # rest')))"

definition optimizeEmptyString :: "concatenation list \<Rightarrow> bool \<times> concatenation list" where
  "optimizeEmptyString alternatives =
     (if length alternatives \<ge> 2 \<and> list_ex (\<lambda>c. length (elements c) = 0) alternatives then
        (let alternatives' = filter (\<lambda>c. length (elements c) > 0) alternatives in
         if length alternatives' = 0 then (True, [Concatenation []])
         else if canMatchEmptyString_some alternatives' then (True, alternatives')
         else
           (case lower_first_quantifier alternatives' of
              (changed, alternatives'') \<Rightarrow>
                if \<not> changed then (True, [Concatenation [Quantifier alternatives' 0 1]])
                else (True, alternatives'')))
      else (False, alternatives))"

text \<open>
  \<open>factorOutCommonPreAndSuffix\<close>. \<open>shortest\<close> is the first element of the stable sort of
  the element arrays by length. The two counting loops stop at the first index at which
  some alternative differs.
\<close>

definition factorOutCommonPreAndSuffix :: "concatenation list \<Rightarrow> bool \<times> concatenation list" where
  "factorOutCommonPreAndSuffix alternatives =
     (if length alternatives \<ge> 2 then
        (let shortest = hd (sort_key length (map elements alternatives));
             prefixLength = length (takeWhile
               (\<lambda>i. list_all (\<lambda>c. structurallyEqual_element (shortest ! i) (elements c ! i)) alternatives)
               [0 ..< length shortest]);
             suffixLength = length (takeWhile
               (\<lambda>i. list_all (\<lambda>c. structurallyEqual_element (shortest ! (length shortest - 1 - i))
                   (elements c ! (length (elements c) - 1 - i))) alternatives)
               [0 ..< length shortest - prefixLength])
         in
         if prefixLength > 0 \<or> suffixLength > 0 then
           (let prefix = take prefixLength shortest;
                suffix = drop (length shortest - suffixLength) shortest;
                alternatives' = map (\<lambda>alt.
                   (let es = drop prefixLength (elements alt)
                    in Concatenation (take (length es - suffixLength) es))) alternatives
            in (True, [Concatenation (prefix @ [Alternation alternatives'] @ suffix)]))
         else (False, alternatives))
      else (False, alternatives))"

text \<open>
  \<open>inlineConcat\<close>. \<open>inlineConcat_element\<close> is the first \<open>if\<close> of the loop body (a
  quantifier \<open>{1,1}\<close>, or \<open>{0,1}\<close> over a body that matches the empty string, becomes an
  alternation); \<open>single_Concatenation\<close> is the test of the second.
\<close>

definition inlineConcat_element :: "element \<Rightarrow> bool \<times> element" where
  "inlineConcat_element e =
     (case e of
        Quantifier alts mn mx \<Rightarrow>
          (if mx = 1 \<and> (mn = 1 \<or> (mn = 0 \<and> canMatchEmptyString_some alts))
           then (True, Alternation alts) else (False, e))
      | _ \<Rightarrow> (False, e))"

definition single_Concatenation :: "element \<Rightarrow> element list option" where
  "single_Concatenation e = (case e of Alternation [Concatenation es] \<Rightarrow> Some es | _ \<Rightarrow> None)"

function inlineConcat :: "element list \<Rightarrow> bool \<times> element list" where
  "inlineConcat [] = (False, [])"
| "inlineConcat (e # rest) =
     (case inlineConcat_element e of
        (inlined, e') \<Rightarrow>
          (case single_Concatenation e' of
             Some es \<Rightarrow> (True, snd (inlineConcat (es @ rest)))
           | None \<Rightarrow> (case inlineConcat rest of (inlined', rest') \<Rightarrow> (inlined \<or> inlined', e' # rest'))))"
  by pat_completeness auto
termination
  by (relation "measure (size_list size)")
     (auto simp: single_Concatenation_def inlineConcat_element_def
        split: concatenation.splits list.splits element.splits if_splits)

text \<open>
  Modelled from the spec: \<open>filterMut(array, filter)\<close> of util.ts, which is not among the
  source files. It filters the array in place, calling \<open>filter(item, prev)\<close> for every
  item in order, where \<open>prev\<close> is the item kept last (\<open>undefined\<close> for none); the callbacks
  of this file mutate \<open>prev\<close> and a flag, so the model's callback returns whether to keep
  the item, the new \<open>prev\<close> and the new flag. \<open>kept\<close> is the part of the array already
  filtered.
\<close>

fun filterMut_loop :: "('a \<Rightarrow> 'a option \<Rightarrow> 's \<Rightarrow> bool \<times> 'a option \<times> 's) \<Rightarrow> 'a list \<Rightarrow> 'a list \<Rightarrow> 's \<Rightarrow> 'a list \<times> 's" where
  "filterMut_loop f kept [] s = (kept, s)"
| "filterMut_loop f kept (x # xs) s =
     (case f x (if kept = [] then None else Some (last kept)) s of
        (keep, prev', s') \<Rightarrow>
          (let kept' = (case prev' of None \<Rightarrow> kept | Some p \<Rightarrow> butlast kept @ [p])
           in filterMut_loop f (if keep then kept' @ [x] else kept') xs s'))"

definition filterMut :: "('a \<Rightarrow> 'a option \<Rightarrow> 's \<Rightarrow> bool \<times> 'a option \<times> 's) \<Rightarrow> 'a list \<Rightarrow> 's \<Rightarrow> 'a list \<times> 's" where
  "filterMut f array s = filterMut_loop f [] array s"

text \<open>
  \<open>letQuantifiersConsumeNeighbors\<close>: the callback of \<open>consumeNonQuantifierLeftToRight\<close>
  and the callback of the third pass.
\<close>

definition consumeNonQuantifier :: "element \<Rightarrow> element option \<Rightarrow> bool \<Rightarrow> bool \<times> element option \<times> bool" where
  "consumeNonQuantifier after quant optimized =
     (case quant of
        Some (Quantifier alts mn mx) \<Rightarrow>
          (if equalToQuantifiedElement alts (Elem after)
           then (False, Some (Quantifier alts (mn + 1) (mx + 1)), True)
           else (True, quant, optimized))
      | _ \<Rightarrow> (True, quant, optimized))"

definition consumeQuantifier :: "element \<Rightarrow> element option \<Rightarrow> bool \<Rightarrow> bool \<times> element option \<times> bool" where
  "consumeQuantifier after quant optimized =
     (case (quant, after) of
        (Some (Quantifier alts mn mx), Quantifier aalts amn amx) \<Rightarrow>
          (if structurallyEqualAlternatives alts aalts
           then (False, Some (Quantifier alts (mn + amn) (mx + amx)), True)
           else (True, quant, optimized))
      | _ \<Rightarrow> (True, quant, optimized))"

definition letQuantifiersConsumeNeighbors :: "element list \<Rightarrow> bool \<times> element list" where
  "letQuantifiersConsumeNeighbors es =
     (case filterMut consumeNonQuantifier es False of
        (es1, o1) \<Rightarrow>
          (case filterMut consumeNonQuantifier (rev es1) o1 of
             (es2, o2) \<Rightarrow>
               (case filterMut consumeQuantifier (rev es2) o2 of
                  (es3, o3) \<Rightarrow> (o3, es3))))"

subsection \<open>optimize\<close>

definition onNodeWithAlternatives :: "concatenation list \<Rightarrow> bool \<times> concatenation list" where
  "onNodeWithAlternatives alternatives =
     (case inlineAlternatives alternatives of
        (o1, a1) \<Rightarrow>
          (case optimizeEmptyString a1 of
             (o2, a2) \<Rightarrow>
               (case factorOutCommonPreAndSuffix a2 of
                  (o3, a3) \<Rightarrow> (o1 \<or> o2 \<or> o3, a3))))"

definition onConcatenationLeave :: "element list \<Rightarrow> bool \<times> element list" where
  "onConcatenationLeave es =
     (case inlineConcat es of
        (o1, es1) \<Rightarrow>
          (case letQuantifiersConsumeNeighbors es1 of
             (o2, es2) \<Rightarrow> (o1 \<or> o2, es2)))"

definition onQuantifierLeave :: "concatenation list \<Rightarrow> nat \<Rightarrow> enat \<Rightarrow> bool \<times> element" where
  "onQuantifierLeave alternatives mn mx =
     (case onNodeWithAlternatives alternatives of
        (o1, a1) \<Rightarrow>
          (if mn = 0 \<or> mn = 1 then
             (case getSingleElement_Quantifier a1 of
                Some (ealts, emn, emx) \<Rightarrow>
                  (if emn = 0 \<or> emn = 1
                   then (True, Quantifier ealts (mn * emn) (safeMultiply mx emx))
                   else (o1, Quantifier a1 mn mx))
              | None \<Rightarrow> (o1, Quantifier a1 mn mx))
           else (o1, Quantifier a1 mn mx)))"

text \<open>
  Modelled from the spec: \<open>visitAst(expr, handlers)\<close> of ast.ts, which is not among the
  source files. The traversal is post-order: the children of a node are visited in
  order, then the node's \<open>Leave\<close> handler runs on the node. The four functions are the
  traversal of \<open>optimize\<close> with its handlers in place, each returning \<open>optimized\<close> and the
  node after the pass.
\<close>

fun optimize_element :: "element \<Rightarrow> bool \<times> element"
  and optimize_concatenation :: "concatenation \<Rightarrow> bool \<times> concatenation"
  and optimize_alternatives :: "concatenation list \<Rightarrow> bool \<times> concatenation list"
  and optimize_elements :: "element list \<Rightarrow> bool \<times> element list" where
  "optimize_element (CharacterClass cs) = (False, CharacterClass cs)"
| "optimize_element (Alternation alts) =
     (case optimize_alternatives alts of
        (o1, a1) \<Rightarrow> (case onNodeWithAlternatives a1 of (o2, a2) \<Rightarrow> (o1 \<or> o2, Alternation a2)))"
| "optimize_element (Assertion kind negate alts) =
     (case optimize_alternatives alts of
        (o1, a1) \<Rightarrow> (case onNodeWithAlternatives a1 of (o2, a2) \<Rightarrow> (o1 \<or> o2, Assertion kind negate a2)))"
| "optimize_element (Quantifier alts mn mx) =
     (case optimize_alternatives alts of
        (o1, a1) \<Rightarrow> (case onQuantifierLeave a1 mn mx of (o2, q) \<Rightarrow> (o1 \<or> o2, q)))"
| "optimize_concatenation (Concatenation es) =
     (case optimize_elements es of
        (o1, es1) \<Rightarrow> (case onConcatenationLeave es1 of (o2, es2) \<Rightarrow> (o1 \<or> o2, Concatenation es2)))"
| "optimize_alternatives [] = (False, [])"
| "optimize_alternatives (c # cs) =
     (case optimize_concatenation c of
        (o1, c') \<Rightarrow> (case optimize_alternatives cs of (o2, cs') \<Rightarrow> (o1 \<or> o2, c' # cs')))"
| "optimize_elements [] = (False, [])"
| "optimize_elements (e # es) =
     (case optimize_element e of
        (o1, e') \<Rightarrow> (case optimize_elements es of (o2, es') \<Rightarrow> (o1 \<or> o2, e' # es')))"

definition optimize :: "expression \<Rightarrow> bool \<times> expression" where
  "optimize expr =
     (case expr of
        Expression alts \<Rightarrow>
          (case optimize_alternatives alts of
             (o1, a1) \<Rightarrow> (case onNodeWithAlternatives a1 of (o2, a2) \<Rightarrow> (o1 \<or> o2, Expression a2))))"

section \<open>The transition factory and the graph (to-regex.ts)\<close>

subsection \<open>TransitionCreator\<close>

text \<open>
  The factory's state is its private \<open>_counter\<close> and its \<open>max\<close> (\<open>maximumNodes\<close>). Every
  method first calls \<open>_incrementCounter\<close>, which increments the counter and throws
  \<open>TooManyNodesError\<close> when the new value exceeds \<open>max\<close>; a method returns the node it
  built and the factory's new state.
\<close>

record TransitionCreator =
  counter :: nat
  max_tc :: int

definition TransitionCreator_new :: "int \<Rightarrow> TransitionCreator" where
  "TransitionCreator_new m = \<lparr>counter = 0, max_tc = m\<rparr>"

definition incrementCounter :: "TransitionCreator \<Rightarrow> error + TransitionCreator" where
  "incrementCounter tc =
     (let tc' = tc\<lparr>counter := counter tc + 1\<rparr>
      in if int (counter tc') > max_tc tc' then Inl (TooManyNodesError (max_tc tc')) else Inr tc')"

definition tc_concat :: "element list \<Rightarrow> TransitionCreator \<Rightarrow> error + concatenation \<times> TransitionCreator" where
  "tc_concat es tc = (case incrementCounter tc of Inl e \<Rightarrow> Inl e | Inr tc' \<Rightarrow> Inr (Concatenation es, tc'))"

definition tc_emptyConcat :: "TransitionCreator \<Rightarrow> error + concatenation \<times> TransitionCreator" where
  "tc_emptyConcat tc = (case incrementCounter tc of Inl e \<Rightarrow> Inl e | Inr tc' \<Rightarrow> Inr (Concatenation [], tc'))"

definition tc_alter :: "concatenation list \<Rightarrow> TransitionCreator \<Rightarrow> error + element \<times> TransitionCreator" where
  "tc_alter alts tc = (case incrementCounter tc of Inl e \<Rightarrow> Inl e | Inr tc' \<Rightarrow> Inr (Alternation alts, tc'))"

definition tc_emptyAlter :: "TransitionCreator \<Rightarrow> error + element \<times> TransitionCreator" where
  "tc_emptyAlter tc = (case incrementCounter tc of Inl e \<Rightarrow> Inl e | Inr tc' \<Rightarrow> Inr (Alternation [], tc'))"

definition tc_expression :: "concatenation list \<Rightarrow> TransitionCreator \<Rightarrow> error + expression \<times> TransitionCreator" where
  "tc_expression alts tc = (case incrementCounter tc of Inl e \<Rightarrow> Inl e | Inr tc' \<Rightarrow> Inr (Expression alts, tc'))"

definition tc_emptyExpression :: "TransitionCreator \<Rightarrow> error + expression \<times> TransitionCreator" where
  "tc_emptyExpression tc = (case incrementCounter tc of Inl e \<Rightarrow> Inl e | Inr tc' \<Rightarrow> Inr (Expression [], tc'))"

definition tc_char :: "CharSet \<Rightarrow> TransitionCreator \<Rightarrow> error + element \<times> TransitionCreator" where
  "tc_char cs tc = (case incrementCounter tc of Inl e \<Rightarrow> Inl e | Inr tc' \<Rightarrow> Inr (CharacterClass cs, tc'))"

definition tc_quant :: "concatenation list \<Rightarrow> nat \<Rightarrow> enat \<Rightarrow> TransitionCreator \<Rightarrow> error + element \<times> TransitionCreator" where
  "tc_quant alts mn mx tc =
     (case incrementCounter tc of Inl e \<Rightarrow> Inl e | Inr tc' \<Rightarrow> Inr (Quantifier alts mn mx, tc'))"

definition tc_quantStar :: "concatenation list \<Rightarrow> TransitionCreator \<Rightarrow> error + element \<times> TransitionCreator" where
  "tc_quantStar alts tc =
     (case incrementCounter tc of Inl e \<Rightarrow> Inl e | Inr tc' \<Rightarrow> Inr (Quantifier alts 0 \<infinity>, tc'))"

definition tc_quantPlus :: "concatenation list \<Rightarrow> TransitionCreator \<Rightarrow> error + element \<times> TransitionCreator" where
  "tc_quantPlus alts tc =
     (case incrementCounter tc of Inl e \<Rightarrow> Inl e | Inr tc' \<Rightarrow> Inr (Quantifier alts 1 \<infinity>, tc'))"

text \<open>
  \<open>copy\<close>: the children are copied first, in order (\<open>map\<close> runs before the factory
  method is called), then the node itself is built. An \<open>Assertion\<close> reaches the
  \<open>default\<close> branch, which throws.
\<close>

fun copy_element :: "element \<Rightarrow> TransitionCreator \<Rightarrow> error + element \<times> TransitionCreator"
  and copy_concatenation :: "concatenation \<Rightarrow> TransitionCreator \<Rightarrow> error + concatenation \<times> TransitionCreator"
  and copy_alternatives :: "concatenation list \<Rightarrow> TransitionCreator \<Rightarrow> error + concatenation list \<times> TransitionCreator"
  and copy_elements :: "element list \<Rightarrow> TransitionCreator \<Rightarrow> error + element list \<times> TransitionCreator" where
  "copy_element (Alternation alts) tc =
     (case copy_alternatives alts tc of Inl e \<Rightarrow> Inl e | Inr (alts', tc') \<Rightarrow> tc_alter alts' tc')"
| "copy_element (CharacterClass cs) tc = tc_char cs tc"
| "copy_element (Quantifier alts mn mx) tc =
     (case copy_alternatives alts tc of Inl e \<Rightarrow> Inl e | Inr (alts', tc') \<Rightarrow> tc_quant alts' mn mx tc')"
| "copy_element (Assertion kind negate alts) tc = Inl AssertNever"
| "copy_concatenation (Concatenation es) tc =
     (case copy_elements es tc of Inl e \<Rightarrow> Inl e | Inr (es', tc') \<Rightarrow> tc_concat es' tc')"
| "copy_alternatives [] tc = Inr ([], tc)"
| "copy_alternatives (c # cs) tc =
     (case copy_concatenation c tc of
        Inl e \<Rightarrow> Inl e
      | Inr (c', tc') \<Rightarrow>
          (case copy_alternatives cs tc' of Inl e \<Rightarrow> Inl e | Inr (cs', tc'') \<Rightarrow> Inr (c' # cs', tc'')))"
| "copy_elements [] tc = Inr ([], tc)"
| "copy_elements (x # xs) tc =
     (case copy_element x tc of
        Inl e \<Rightarrow> Inl e
      | Inr (x', tc') \<Rightarrow>
          (case copy_elements xs tc' of Inl e \<Rightarrow> Inl e | Inr (xs', tc'') \<Rightarrow> Inr (x' # xs', tc'')))"

definition tc_copy :: "transition \<Rightarrow> TransitionCreator \<Rightarrow> error + transition \<times> TransitionCreator" where
  "tc_copy t tc =
     (case t of
        Elem x \<Rightarrow> (case copy_element x tc of Inl e \<Rightarrow> Inl e | Inr (x', tc') \<Rightarrow> Inr (Elem x', tc'))
      | Concat c \<Rightarrow> (case copy_concatenation c tc of Inl e \<Rightarrow> Inl e | Inr (c', tc') \<Rightarrow> Inr (Concat c', tc')))"

subsection \<open>Maps and sets in insertion order\<close>

text \<open>
  A JavaScript \<open>Map\<close> iterates in insertion order: \<open>set\<close> on a present key keeps the
  key's place, on an absent key appends; \<open>delete\<close> removes the entry. A \<open>Set\<close> behaves
  the same way. Nodes are objects compared by identity; the model numbers them in the
  order of their creation.
\<close>

definition Map_has :: "'k \<Rightarrow> ('k \<times> 'v) list \<Rightarrow> bool" where
  "Map_has k m = (map_of m k \<noteq> None)"

definition Map_get :: "'k \<Rightarrow> ('k \<times> 'v) list \<Rightarrow> 'v option" where
  "Map_get k m = map_of m k"

fun Map_set :: "'k \<Rightarrow> 'v \<Rightarrow> ('k \<times> 'v) list \<Rightarrow> ('k \<times> 'v) list" where
  "Map_set k v [] = [(k, v)]"
| "Map_set k v (p # ps) = (if fst p = k then (k, v) # ps else p # Map_set k v ps)"

definition Map_delete :: "'k \<Rightarrow> ('k \<times> 'v) list \<Rightarrow> ('k \<times> 'v) list" where
  "Map_delete k m = filter (\<lambda>p. fst p \<noteq> k) m"

definition Set_add :: "'a \<Rightarrow> 'a list \<Rightarrow> 'a list" where
  "Set_add x s = (if x \<in> set s then s else s @ [x])"

definition Set_delete :: "'a \<Rightarrow> 'a list \<Rightarrow> 'a list" where
  "Set_delete x s = filter (\<lambda>y. y \<noteq> x) s"

definition Set_of :: "'a list \<Rightarrow> 'a list" where
  "Set_of xs = foldl (\<lambda>s x. Set_add x s) [] xs"

text \<open>Modelled from the spec: \<open>firstOf(iterable)\<close> of util.ts, the first item or \<open>undefined\<close>.\<close>

definition firstOf :: "'a list \<Rightarrow> 'a option" where
  "firstOf xs = (case xs of [] \<Rightarrow> None | x # _ \<Rightarrow> Some x)"

text \<open>
  Modelled from the spec: \<open>minOf(iterable, cost)\<close> of util.ts, the item of least cost,
  the first such in iteration order; \<open>undefined\<close> for no items.
\<close>

fun minOf_loop :: "('a \<Rightarrow> int) \<Rightarrow> 'a \<Rightarrow> 'a list \<Rightarrow> 'a" where
  "minOf_loop cost best [] = best"
| "minOf_loop cost best (x # xs) = minOf_loop cost (if cost x < cost best then x else best) xs"

definition minOf :: "'a list \<Rightarrow> ('a \<Rightarrow> int) \<Rightarrow> 'a option" where
  "minOf xs cost = (case xs of [] \<Rightarrow> None | x # rest \<Rightarrow> Some (minOf_loop cost x rest))"

subsection \<open>NodeList\<close>

record RegexFANode =
  out_m :: "(nat \<times> transition) list"
  in_m :: "(nat \<times> transition) list"

record NodeList =
  initial :: nat
  finals :: "nat list"
  nodes :: "RegexFANode list"

definition createNode :: "NodeList \<Rightarrow> nat \<times> NodeList" where
  "createNode nl = (length (nodes nl), nl\<lparr>nodes := nodes nl @ [\<lparr>out_m = [], in_m = []\<rparr>]\<rparr>)"

definition NodeList_new :: NodeList where
  "NodeList_new = \<lparr>initial = 0, finals = [], nodes = [\<lparr>out_m = [], in_m = []\<rparr>]\<rparr>"

definition node_out :: "NodeList \<Rightarrow> nat \<Rightarrow> (nat \<times> transition) list" where
  "node_out nl n = out_m (nodes nl ! n)"

definition node_in :: "NodeList \<Rightarrow> nat \<Rightarrow> (nat \<times> transition) list" where
  "node_in nl n = in_m (nodes nl ! n)"

definition update_out :: "nat \<Rightarrow> ((nat \<times> transition) list \<Rightarrow> (nat \<times> transition) list) \<Rightarrow> NodeList \<Rightarrow> NodeList" where
  "update_out n f nl = nl\<lparr>nodes := (nodes nl)[n := (nodes nl ! n)\<lparr>out_m := f (out_m (nodes nl ! n))\<rparr>]\<rparr>"

definition update_in :: "nat \<Rightarrow> ((nat \<times> transition) list \<Rightarrow> (nat \<times> transition) list) \<Rightarrow> NodeList \<Rightarrow> NodeList" where
  "update_in n f nl = nl\<lparr>nodes := (nodes nl)[n := (nodes nl ! n)\<lparr>in_m := f (in_m (nodes nl ! n))\<rparr>]\<rparr>"

definition linkNodes :: "nat \<Rightarrow> nat \<Rightarrow> transition \<Rightarrow> NodeList \<Rightarrow> error + NodeList" where
  "linkNodes from to t nl =
     (if Map_has to (node_out nl from) then Inl AlreadyLinked
      else Inr (update_in to (Map_set from t) (update_out from (Map_set to t) nl)))"

definition unlinkNodes :: "nat \<Rightarrow> nat \<Rightarrow> NodeList \<Rightarrow> transition option \<times> NodeList" where
  "unlinkNodes from to nl =
     (case Map_get to (node_out nl from) of
        None \<Rightarrow> (None, nl)
      | Some t \<Rightarrow> (Some t, update_in to (Map_delete from) (update_out from (Map_delete to) nl)))"

definition relinkNodes :: "nat \<Rightarrow> nat \<Rightarrow> transition \<Rightarrow> NodeList \<Rightarrow> error + NodeList" where
  "relinkNodes from to t nl =
     (if \<not> Map_has to (node_out nl from) then Inl NotLinked
      else Inr (update_in to (Map_set from t) (update_out from (Map_set to t) nl)))"

subsection \<open>The traversal\<close>

text \<open>
  Modelled from the spec: \<open>DFS(start, next)\<close> of util.ts, which is not among the source
  files: a depth-first search from \<open>start\<close> that calls \<open>next\<close> once on every element it
  reaches and goes on with the elements \<open>next\<close> returns. The callbacks of this file change
  state (the graph, the factory, a set), so \<open>next\<close> takes and returns the state and may
  throw. On an infinite automaton the search does not return: the value is \<open>None\<close>.
\<close>

partial_function (option) DFS_loop ::
  "('a \<Rightarrow> 's \<Rightarrow> error + 'a list \<times> 's) \<Rightarrow> 'a list \<Rightarrow> 'a list \<Rightarrow> 's \<Rightarrow> (error + 's) option" where
  "DFS_loop next stack visited s =
     (case stack of
        [] \<Rightarrow> Some (Inr s)
      | x # rest \<Rightarrow>
          if x \<in> set visited then DFS_loop next rest visited s
          else (case next x s of
                  Inl e \<Rightarrow> Some (Inl e)
                | Inr (succs, s') \<Rightarrow> DFS_loop next (succs @ rest) (x # visited) s'))"

declare DFS_loop.simps [code]

definition DFS :: "'a \<Rightarrow> ('a \<Rightarrow> 's \<Rightarrow> error + 'a list \<times> 's) \<Rightarrow> 's \<Rightarrow> (error + 's) option" where
  "DFS start next s = DFS_loop next [start] [] s"

subsection \<open>createNodeList\<close>

text \<open>
  The input automaton, as the interface \<open>FAIterator\<close> that the source reads:
  \<open>initial\<close>, \<open>getOut\<close> and \<open>isFinal\<close>.
\<close>

record 'a FAIterator =
  initial_fa :: 'a
  getOut :: "'a \<Rightarrow> ('a \<times> CharSet) list"
  isFinal :: "'a \<Rightarrow> bool"

text \<open>
  The comparator of the sort of the out transitions: first
  \<open>Number(a.isEmpty) - Number(b.isEmpty)\<close>, then the ranges pairwise, then the number of
  ranges.
\<close>

fun compare_out_loop :: "CharRange list \<Rightarrow> CharRange list \<Rightarrow> int" where
  "compare_out_loop (aR # as) (bR # bs) =
     (if min_r aR \<noteq> min_r bR then min_r aR - min_r bR
      else if max_r aR \<noteq> max_r bR then max_r aR - max_r bR
      else compare_out_loop as bs)"
| "compare_out_loop as bs = int (length as) - int (length bs)"

definition compare_out :: "'a \<times> CharSet \<Rightarrow> 'a \<times> CharSet \<Rightarrow> int" where
  "compare_out x y =
     (let a = snd x; b = snd y;
          diff = (if isEmpty a then 1 else 0) - (if isEmpty b then 1 else (0::int))
      in if diff \<noteq> 0 then diff else compare_out_loop (ranges a) (ranges b))"

text \<open>
  \<open>Array.prototype.sort(compare)\<close> is a stable sort (ECMAScript 2019): the model inserts
  the items one by one, in their order, each after the items that do not compare
  greater than it.
\<close>

fun Array_sort_insert :: "('a \<Rightarrow> 'a \<Rightarrow> int) \<Rightarrow> 'a \<Rightarrow> 'a list \<Rightarrow> 'a list" where
  "Array_sort_insert cmp x [] = [x]"
| "Array_sort_insert cmp x (y # ys) =
     (if cmp x y < 0 then x # y # ys else y # Array_sort_insert cmp x ys)"

definition Array_sort :: "('a \<Rightarrow> 'a \<Rightarrow> int) \<Rightarrow> 'a list \<Rightarrow> 'a list" where
  "Array_sort cmp xs = foldl (\<lambda>sorted x. Array_sort_insert cmp x sorted) [] xs"

definition sorted_out :: "'a FAIterator \<Rightarrow> 'a \<Rightarrow> ('a \<times> CharSet) list" where
  "sorted_out iter n = Array_sort compare_out (getOut iter n)"

text \<open>
  The state of the builder: the node list, the cache of \<open>translate\<close> and the factory.

  Modelled from the spec: \<open>cachedFunc\<close> of util.ts, which memoizes its function;
  \<open>translate\<close> creates a node for a state it has not seen and returns the cached node
  otherwise.
\<close>

record 'a build_state =
  nodeList_b :: NodeList
  cache_b :: "('a \<times> nat) list"
  tc_b :: TransitionCreator

definition translate :: "'a \<Rightarrow> 'a build_state \<Rightarrow> nat \<times> 'a build_state" where
  "translate n st =
     (case map_of (cache_b st) n of
        Some v \<Rightarrow> (v, st)
      | None \<Rightarrow>
          (case createNode (nodeList_b st) of
             (v, nl) \<Rightarrow> (v, st\<lparr>nodeList_b := nl, cache_b := cache_b st @ [(n, v)]\<rparr>)))"

text \<open>
  \<open>out.forEach(([outNode, charSet]) => nodeList.linkNodes(translate(n),
  translate(outNode), tc.char(charSet)))\<close>: the arguments are evaluated left to right.
\<close>

fun link_out :: "'a \<Rightarrow> ('a \<times> CharSet) list \<Rightarrow> 'a build_state \<Rightarrow> error + 'a build_state" where
  "link_out n [] st = Inr st"
| "link_out n ((outNode, charSet) # out) st =
     (case translate n st of
        (from, st1) \<Rightarrow>
          (case translate outNode st1 of
             (to, st2) \<Rightarrow>
               (case tc_char charSet (tc_b st2) of
                  Inl e \<Rightarrow> Inl e
                | Inr (t, tc') \<Rightarrow>
                    (case linkNodes from to (Elem t) (nodeList_b st2) of
                       Inl e \<Rightarrow> Inl e
                     | Inr nl \<Rightarrow> link_out n out (st2\<lparr>nodeList_b := nl, tc_b := tc'\<rparr>)))))"

definition createNodeList_next :: "'a FAIterator \<Rightarrow> 'a \<Rightarrow> 'a build_state \<Rightarrow> error + 'a list \<times> 'a build_state" where
  "createNodeList_next iter n st =
     (let st1 =
        (if isFinal iter n then
           (case translate n st of
              (v, st') \<Rightarrow> st'\<lparr>nodeList_b := (nodeList_b st')\<lparr>finals := Set_add v (finals (nodeList_b st'))\<rparr>\<rparr>)
         else st);
          out = sorted_out iter n
      in case link_out n out st1 of
           Inl e \<Rightarrow> Inl e
         | Inr st2 \<Rightarrow> Inr (map fst out, st2))"

text \<open>\<open>nodeList.finals.forEach(n => nodeList.linkNodes(n, tempFinal, tc.emptyConcat()))\<close>.\<close>

fun link_finals :: "nat list \<Rightarrow> nat \<Rightarrow> NodeList \<Rightarrow> TransitionCreator \<Rightarrow> error + NodeList \<times> TransitionCreator" where
  "link_finals [] tempFinal nl tc = Inr (nl, tc)"
| "link_finals (n # ns) tempFinal nl tc =
     (case tc_emptyConcat tc of
        Inl e \<Rightarrow> Inl e
      | Inr (eps, tc') \<Rightarrow>
          (case linkNodes n tempFinal (Concat eps) nl of
             Inl e \<Rightarrow> Inl e
           | Inr nl' \<Rightarrow> link_finals ns tempFinal nl' tc'))"

text \<open>
  \<open>n.out.forEach((_, outNode) => nodeList.unlinkNodes(n, outNode))\<close> and the same for
  \<open>n.in\<close>: deleting the current entry of a \<open>Map\<close> during \<open>forEach\<close> does not disturb the
  iteration, so every entry present at the start is visited.
\<close>

definition unlink_all_out :: "nat \<Rightarrow> NodeList \<Rightarrow> NodeList" where
  "unlink_all_out n nl = foldl (\<lambda>nl' outNode. snd (unlinkNodes n outNode nl')) nl (map fst (node_out nl n))"

definition unlink_all_in :: "nat \<Rightarrow> NodeList \<Rightarrow> NodeList" where
  "unlink_all_in n nl = foldl (\<lambda>nl' inNode. snd (unlinkNodes inNode n nl')) nl (map fst (node_in nl n))"

definition alive_next :: "NodeList \<Rightarrow> nat \<Rightarrow> nat list \<Rightarrow> error + nat list \<times> nat list" where
  "alive_next nl n alive = Inr (map fst (node_in nl n), Set_add n alive)"

definition dead_next :: "NodeList \<Rightarrow> nat list \<Rightarrow> nat \<Rightarrow> nat list \<Rightarrow> error + nat list \<times> nat list" where
  "dead_next nl alive n dead =
     Inr (map fst (node_out nl n), if n \<notin> set alive then Set_add n dead else dead)"

definition remove_dead :: "nat list \<Rightarrow> NodeList \<Rightarrow> NodeList" where
  "remove_dead dead nl = foldl (\<lambda>nl' n. unlink_all_in n (unlink_all_out n nl')) nl dead"

definition createNodeList_finish :: "'a build_state \<Rightarrow> (error + NodeList option \<times> TransitionCreator) option" where
  "createNodeList_finish st =
     (let nl = nodeList_b st in
      if length (finals nl) = 0 then Some (Inr (None, tc_b st))
      else
        (case createNode nl of
           (tempFinal, nl1) \<Rightarrow>
             (case link_finals (finals nl1) tempFinal nl1 (tc_b st) of
                Inl e \<Rightarrow> Some (Inl e)
              | Inr (nl2, tc') \<Rightarrow>
                  (let nl3 = nl2\<lparr>finals := [tempFinal]\<rparr> in
                   Option.bind (DFS tempFinal (alive_next nl3) [])
                     (\<lambda>r. case r of
                        Inl e \<Rightarrow> Some (Inl e)
                      | Inr alive \<Rightarrow>
                          Option.bind (DFS (initial nl3) (dead_next nl3 alive) [])
                            (\<lambda>r'. case r' of
                               Inl e \<Rightarrow> Some (Inl e)
                             | Inr dead \<Rightarrow> Some (Inr (Some (remove_dead dead nl3), tc'))))))))"

definition createNodeList :: "'a FAIterator \<Rightarrow> TransitionCreator \<Rightarrow> (error + NodeList option \<times> TransitionCreator) option" where
  "createNodeList iter tc =
     (case createNode NodeList_new of
        (tempInitial, nl) \<Rightarrow>
          (case tc_emptyConcat tc of
             Inl e \<Rightarrow> Some (Inl e)
           | Inr (eps, tc') \<Rightarrow>
               (case linkNodes (initial nl) tempInitial (Concat eps) nl of
                  Inl e \<Rightarrow> Some (Inl e)
                | Inr nl' \<Rightarrow>
                    Option.bind
                      (DFS (initial_fa iter) (createNodeList_next iter)
                         \<lparr>nodeList_b = nl', cache_b = [(initial_fa iter, tempInitial)], tc_b = tc'\<rparr>)
                      (\<lambda>r. case r of
                         Inl e \<Rightarrow> Some (Inl e)
                       | Inr st \<Rightarrow> createNodeList_finish st))))"

subsection \<open>eliminateStates: the combinators\<close>

text \<open>
  The functions nested in \<open>eliminateStates\<close> share \<open>nodeList\<close>, \<open>tc\<close> and
  \<open>remainingStates\<close>; the model passes what each of them uses. \<open>concat\<close>, \<open>union\<close>,
  \<open>star\<close> and \<open>plus\<close> carry the suffix \<open>_t\<close> (they clash with constants of HOL).
\<close>

definition factorOut_if_Alternation :: "element \<Rightarrow> element" where
  "factorOut_if_Alternation e =
     (case e of Alternation alts \<Rightarrow> Alternation (snd (factorOutCommonPreAndSuffix alts)) | _ \<Rightarrow> e)"

definition concat_t :: "transition \<Rightarrow> transition \<Rightarrow> TransitionCreator \<Rightarrow> error + transition \<times> TransitionCreator" where
  "concat_t a b tc =
     (case a of
        Concat (Concatenation aes) \<Rightarrow>
          (if length aes = 0 then Inr (b, tc)
           else
             (case b of
                Concat (Concatenation bes) \<Rightarrow>
                  Inr (Concat (Concatenation (snd (inlineConcat (aes @ bes)))), tc)
              | Elem be \<Rightarrow>
                  Inr (Concat (Concatenation (snd (inlineConcat (aes @ [factorOut_if_Alternation be])))), tc)))
      | Elem ae \<Rightarrow>
          (case b of
             Concat (Concatenation bes) \<Rightarrow>
               (if length bes = 0 then Inr (a, tc)
                else Inr (Concat (Concatenation (snd (inlineConcat (factorOut_if_Alternation ae # bes)))), tc))
           | Elem be \<Rightarrow>
               (case tc_concat [factorOut_if_Alternation ae, factorOut_if_Alternation be] tc of
                  Inl e \<Rightarrow> Inl e
                | Inr (newConcat, tc') \<Rightarrow>
                    Inr (Concat (Concatenation (snd (inlineConcat (elements newConcat)))), tc'))))"

definition asConcatenation :: "transition \<Rightarrow> TransitionCreator \<Rightarrow> error + concatenation \<times> TransitionCreator" where
  "asConcatenation a tc = (case a of Concat c \<Rightarrow> Inr (c, tc) | Elem e \<Rightarrow> tc_concat [e] tc)"

text \<open>
  \<open>unionAlternationAndCharClass\<close>: the loop unions \<open>char\<close> into the first alternative
  that is a single character class and returns; \<open>None\<close> when there is none.
\<close>

fun unionAlternationAndCharClass_loop :: "concatenation list \<Rightarrow> CharSet \<Rightarrow> error + concatenation list option" where
  "unionAlternationAndCharClass_loop [] cs = Inr None"
| "unionAlternationAndCharClass_loop (alt # rest) cs =
     (case single_CharacterClass alt of
        Some first \<Rightarrow>
          (case CharSet_union first [OfSet cs] of
             Inl e \<Rightarrow> Inl e
           | Inr u \<Rightarrow> Inr (Some (Concatenation [CharacterClass u] # rest)))
      | None \<Rightarrow>
          (case unionAlternationAndCharClass_loop rest cs of
             Inl e \<Rightarrow> Inl e
           | Inr None \<Rightarrow> Inr None
           | Inr (Some rest') \<Rightarrow> Inr (Some (alt # rest'))))"

definition unionAlternationAndCharClass ::
  "concatenation list \<Rightarrow> CharSet \<Rightarrow> TransitionCreator \<Rightarrow> error + concatenation list \<times> TransitionCreator" where
  "unionAlternationAndCharClass alternatives cs tc =
     (case unionAlternationAndCharClass_loop alternatives cs of
        Inl e \<Rightarrow> Inl e
      | Inr (Some alternatives') \<Rightarrow> Inr (alternatives', tc)
      | Inr None \<Rightarrow>
          (case tc_concat [CharacterClass cs] tc of
             Inl e \<Rightarrow> Inl e
           | Inr (c, tc') \<Rightarrow> Inr (alternatives @ [c], tc')))"

text \<open>The loop \<open>for (const alt of b.alternatives)\<close> of \<open>union\<close>.\<close>

fun union_alternatives :: "concatenation list \<Rightarrow> concatenation list \<Rightarrow> TransitionCreator \<Rightarrow> error + concatenation list \<times> TransitionCreator" where
  "union_alternatives a [] tc = Inr (a, tc)"
| "union_alternatives a (alt # rest) tc =
     (case single_CharacterClass alt of
        Some cs \<Rightarrow>
          (case unionAlternationAndCharClass a cs tc of
             Inl e \<Rightarrow> Inl e
           | Inr (a', tc') \<Rightarrow> union_alternatives a' rest tc')
      | None \<Rightarrow> union_alternatives (a @ [alt]) rest tc)"

definition is_Alternation :: "transition \<Rightarrow> concatenation list option" where
  "is_Alternation t = (case t of Elem (Alternation alts) \<Rightarrow> Some alts | _ \<Rightarrow> None)"

definition is_CharacterClass :: "transition \<Rightarrow> CharSet option" where
  "is_CharacterClass t = (case t of Elem (CharacterClass cs) \<Rightarrow> Some cs | _ \<Rightarrow> None)"

definition union_t :: "transition \<Rightarrow> transition \<Rightarrow> TransitionCreator \<Rightarrow> error + transition \<times> TransitionCreator" where
  "union_t a b tc =
     (case (is_CharacterClass a, is_CharacterClass b) of
        (Some ac, Some bc) \<Rightarrow>
          (case CharSet_union ac [OfSet bc] of
             Inl e \<Rightarrow> Inl e
           | Inr u \<Rightarrow> Inr (Elem (CharacterClass u), tc))
      | _ \<Rightarrow>
          (case is_Alternation a of
             Some aalts \<Rightarrow>
               (if length aalts = 0 then Inr (b, tc)
                else
                  (case is_Alternation b of
                     Some balts \<Rightarrow>
                       (if length balts = 0 then Inr (a, tc)
                        else
                          (case union_alternatives aalts balts tc of
                             Inl e \<Rightarrow> Inl e
                           | Inr (aalts', tc') \<Rightarrow> Inr (Elem (Alternation aalts'), tc')))
                   | None \<Rightarrow>
                       (case is_CharacterClass b of
                          Some bc \<Rightarrow>
                            (case unionAlternationAndCharClass aalts bc tc of
                               Inl e \<Rightarrow> Inl e
                             | Inr (aalts', tc') \<Rightarrow> Inr (Elem (Alternation aalts'), tc'))
                        | None \<Rightarrow>
                            (case asConcatenation b tc of
                               Inl e \<Rightarrow> Inl e
                             | Inr (c, tc') \<Rightarrow> Inr (Elem (Alternation (aalts @ [c])), tc')))))
           | None \<Rightarrow>
               (case is_Alternation b of
                  Some balts \<Rightarrow>
                    (if length balts = 0 then Inr (a, tc)
                     else
                       (case is_CharacterClass a of
                          Some ac \<Rightarrow>
                            (case unionAlternationAndCharClass balts ac tc of
                               Inl e \<Rightarrow> Inl e
                             | Inr (balts', tc') \<Rightarrow> Inr (Elem (Alternation balts'), tc'))
                        | None \<Rightarrow>
                            (case asConcatenation a tc of
                               Inl e \<Rightarrow> Inl e
                             | Inr (c, tc') \<Rightarrow> Inr (Elem (Alternation (balts @ [c])), tc'))))
                | None \<Rightarrow>
                    (case asConcatenation a tc of
                       Inl e \<Rightarrow> Inl e
                     | Inr (ca, tc1) \<Rightarrow>
                         (case asConcatenation b tc1 of
                            Inl e \<Rightarrow> Inl e
                          | Inr (cb, tc2) \<Rightarrow>
                              (case tc_alter [ca, cb] tc2 of
                                 Inl e \<Rightarrow> Inl e
                               | Inr (alt, tc3) \<Rightarrow> Inr (Elem alt, tc3)))))))"

definition quantified :: "(concatenation list \<Rightarrow> TransitionCreator \<Rightarrow> error + element \<times> TransitionCreator) \<Rightarrow>
    concatenation list \<Rightarrow> TransitionCreator \<Rightarrow> error + transition \<times> TransitionCreator" where
  "quantified quant alts tc = (case quant alts tc of Inl e \<Rightarrow> Inl e | Inr (q, tc') \<Rightarrow> Inr (Elem q, tc'))"

definition quantified_single :: "(concatenation list \<Rightarrow> TransitionCreator \<Rightarrow> error + element \<times> TransitionCreator) \<Rightarrow>
    transition \<Rightarrow> TransitionCreator \<Rightarrow> error + transition \<times> TransitionCreator" where
  "quantified_single quant a tc =
     (case asConcatenation a tc of Inl e \<Rightarrow> Inl e | Inr (c, tc') \<Rightarrow> quantified quant [c] tc')"

definition star_t :: "transition \<Rightarrow> TransitionCreator \<Rightarrow> error + transition \<times> TransitionCreator" where
  "star_t a tc =
     (case a of
        Elem (Quantifier alts mn mx) \<Rightarrow>
          (if mx = 0 then
             (case tc_emptyConcat tc of Inl e \<Rightarrow> Inl e | Inr (c, tc') \<Rightarrow> Inr (Concat c, tc'))
           else if mn = 0 \<or> mn = 1 then Inr (Elem (Quantifier alts 0 \<infinity>), tc)
           else quantified_single tc_quantStar a tc)
      | Elem (Alternation alts) \<Rightarrow> quantified tc_quantStar alts tc
      | Concat (Concatenation es) \<Rightarrow>
          (if length es = 0 then Inr (a, tc) else quantified tc_quantStar [Concatenation es] tc)
      | _ \<Rightarrow> quantified_single tc_quantStar a tc)"

definition plus_t :: "transition \<Rightarrow> TransitionCreator \<Rightarrow> error + transition \<times> TransitionCreator" where
  "plus_t a tc =
     (case a of
        Elem (Quantifier alts mn mx) \<Rightarrow>
          (if mx = 0 then
             (case tc_emptyConcat tc of Inl e \<Rightarrow> Inl e | Inr (c, tc') \<Rightarrow> Inr (Concat c, tc'))
           else if mn = 0 then Inr (Elem (Quantifier alts 0 \<infinity>), tc)
           else if mn = 1 then Inr (Elem (Quantifier alts mn \<infinity>), tc)
           else quantified_single tc_quantPlus a tc)
      | Elem (Alternation alts) \<Rightarrow> quantified tc_quantPlus alts tc
      | Concat (Concatenation es) \<Rightarrow>
          (if length es = 0 then Inr (a, tc) else quantified tc_quantPlus [Concatenation es] tc)
      | _ \<Rightarrow> quantified_single tc_quantPlus a tc)"

subsection \<open>eliminateStates: the graph rewrites\<close>

record elim_state =
  nodeList :: NodeList
  tc_e :: TransitionCreator
  remainingStates :: "nat list"

definition linkWithUnion :: "nat \<Rightarrow> nat \<Rightarrow> transition \<Rightarrow> elim_state \<Rightarrow> error + elim_state" where
  "linkWithUnion from to t st =
     (case unlinkNodes from to (nodeList st) of
        (currentTrans, nl) \<Rightarrow>
          (case (case currentTrans of
                   Some cur \<Rightarrow> union_t cur t (tc_e st)
                 | None \<Rightarrow> Inr (t, tc_e st)) of
             Inl e \<Rightarrow> Inl e
           | Inr (t', tc') \<Rightarrow>
               (case linkNodes from to t' nl of
                  Inl e \<Rightarrow> Inl e
                | Inr nl' \<Rightarrow> Inr (st\<lparr>nodeList := nl', tc_e := tc'\<rparr>))))"

text \<open>
  \<open>relinkNodes(from, to, f(...))\<close> where the new label is built by a combinator: the
  label is built first, then the nodes are relinked.
\<close>

definition relink_with :: "nat \<Rightarrow> nat \<Rightarrow> (TransitionCreator \<Rightarrow> error + transition \<times> TransitionCreator) \<Rightarrow>
    NodeList \<Rightarrow> elim_state \<Rightarrow> error + elim_state" where
  "relink_with from to build nl st =
     (case build (tc_e st) of
        Inl e \<Rightarrow> Inl e
      | Inr (t, tc') \<Rightarrow>
          (case relinkNodes from to t nl of
             Inl e \<Rightarrow> Inl e
           | Inr nl' \<Rightarrow> Inr (st\<lparr>nodeList := nl', tc_e := tc'\<rparr>)))"

definition star_then_concat :: "transition \<Rightarrow> transition \<Rightarrow> TransitionCreator \<Rightarrow> error + transition \<times> TransitionCreator" where
  "star_then_concat refTrans outTrans tc =
     (case star_t refTrans tc of Inl e \<Rightarrow> Inl e | Inr (s, tc') \<Rightarrow> concat_t s outTrans tc')"

definition concat_then_star :: "transition \<Rightarrow> transition \<Rightarrow> TransitionCreator \<Rightarrow> error + transition \<times> TransitionCreator" where
  "concat_then_star inTrans refTrans tc =
     (case star_t refTrans tc of Inl e \<Rightarrow> Inl e | Inr (s, tc') \<Rightarrow> concat_t inTrans s tc')"

definition removeTrivialReflexiveTransition :: "nat \<Rightarrow> elim_state \<Rightarrow> error + elim_state" where
  "removeTrivialReflexiveTransition state st =
     (let nl0 = nodeList st in
      if Map_has state (node_out nl0 state) then
        (if length (node_in nl0 state) = 2 \<and> length (node_out nl0 state) = 2 then
           (case unlinkNodes state state nl0 of
              (None, nl) \<Rightarrow> Inl TypeError
            | (Some refTrans, nl) \<Rightarrow>
                (case (firstOf (node_out nl state), firstOf (node_in nl state)) of
                   (Some (outState, outTrans), Some (inState, inTrans)) \<Rightarrow>
                     (if structurallyEqual inTrans refTrans then
                        relink_with inState state (plus_t refTrans) nl st
                      else if structurallyEqual refTrans outTrans then
                        relink_with state outState (plus_t refTrans) nl st
                      else relink_with state outState (star_then_concat refTrans outTrans) nl st)
                 | _ \<Rightarrow> Inl TypeError))
         else if length (node_out nl0 state) = 2 then
           (case unlinkNodes state state nl0 of
              (None, nl) \<Rightarrow> Inl TypeError
            | (Some refTrans, nl) \<Rightarrow>
                (case firstOf (node_out nl state) of
                   Some (outState, outTrans) \<Rightarrow>
                     (if structurallyEqual refTrans outTrans then
                        relink_with state outState (plus_t refTrans) nl st
                      else relink_with state outState (star_then_concat refTrans outTrans) nl st)
                 | None \<Rightarrow> Inl TypeError))
         else if length (node_in nl0 state) = 2 then
           (case unlinkNodes state state nl0 of
              (None, nl) \<Rightarrow> Inl TypeError
            | (Some refTrans, nl) \<Rightarrow>
                (case firstOf (node_in nl state) of
                   Some (inState, inTrans) \<Rightarrow>
                     (if structurallyEqual inTrans refTrans then
                        relink_with inState state (plus_t refTrans) nl st
                      else relink_with inState state (concat_then_star inTrans refTrans) nl st)
                 | None \<Rightarrow> Inl TypeError))
         else Inr st)
      else Inr st)"

definition removeTrivialConcat :: "nat \<Rightarrow> elim_state \<Rightarrow> error + nat list option \<times> elim_state" where
  "removeTrivialConcat state st =
     (let nl0 = nodeList st in
      if length (node_in nl0 state) = 1 \<and> length (node_out nl0 state) = 1 then
        (case (firstOf (node_in nl0 state), firstOf (node_out nl0 state)) of
           (Some (inState, inTrans), Some (outState, outTrans)) \<Rightarrow>
             (let nl1 = snd (unlinkNodes inState state nl0);
                  nl2 = snd (unlinkNodes state outState nl1)
              in case concat_t inTrans outTrans (tc_e st) of
                   Inl e \<Rightarrow> Inl e
                 | Inr (t, tc') \<Rightarrow>
                     (case linkWithUnion inState outState t (st\<lparr>nodeList := nl2, tc_e := tc'\<rparr>) of
                        Inl e \<Rightarrow> Inl e
                      | Inr st' \<Rightarrow>
                          Inr (Some [inState, outState],
                               st'\<lparr>remainingStates := Set_delete state (remainingStates st')\<rparr>)))
         | _ \<Rightarrow> Inl TypeError)
      else Inr (None, st))"

text \<open>
  One turn of the \<open>while\<close> loop of \<open>trivialOperations\<close>: \<open>toProcess.forEach\<close>, which
  fills \<open>newToProcess\<close>. In the first call \<open>toProcess\<close> is \<open>remainingStates\<close> itself, from
  which the callback deletes only the state it is visiting; every state present at the
  start is visited.
\<close>

fun trivialOperations_forEach :: "nat list \<Rightarrow> nat list \<Rightarrow> elim_state \<Rightarrow> error + nat list \<times> elim_state" where
  "trivialOperations_forEach [] newToProcess st = Inr (newToProcess, st)"
| "trivialOperations_forEach (state # rest) newToProcess st =
     (if state \<notin> set (remainingStates st) then trivialOperations_forEach rest newToProcess st
      else
        (case removeTrivialReflexiveTransition state st of
           Inl e \<Rightarrow> Inl e
         | Inr st1 \<Rightarrow>
             (case removeTrivialConcat state st1 of
                Inl e \<Rightarrow> Inl e
              | Inr (affected, st2) \<Rightarrow>
                  trivialOperations_forEach rest
                    (case affected of
                       None \<Rightarrow> newToProcess
                     | Some ss \<Rightarrow> foldl (\<lambda>s x. Set_add x s) newToProcess ss)
                    st2)))"

partial_function (option) trivialOperations :: "nat list \<Rightarrow> elim_state \<Rightarrow> (error + elim_state) option" where
  "trivialOperations toProcess st =
     (if length toProcess > 0 then
        (case trivialOperations_forEach toProcess [] st of
           Inl e \<Rightarrow> Some (Inl e)
         | Inr (newToProcess, st') \<Rightarrow> trivialOperations newToProcess st')
      else Some (Inr st))"

declare trivialOperations.simps [code]

text \<open>
  \<open>removeState\<close>. The two nested \<open>forEach\<close> run over \<open>state.in\<close> and \<open>state.out\<close>, which
  the body does not change (after the self-loop is unlinked, neither \<open>inState\<close> nor
  \<open>outState\<close> is \<open>state\<close>). The arguments of the nested \<open>concat\<close> calls are evaluated left
  to right: the copy of \<open>inTrans\<close>, of \<open>refStar\<close>, of \<open>outTrans\<close>, the inner \<open>concat\<close>, the
  outer one.
\<close>

definition new_transition :: "transition \<Rightarrow> transition option \<Rightarrow> transition \<Rightarrow> TransitionCreator \<Rightarrow> error + transition \<times> TransitionCreator" where
  "new_transition inTrans refStar outTrans tc0 =
     (case tc_copy inTrans tc0 of
        Inl e \<Rightarrow> Inl e
      | Inr (i, tc1) \<Rightarrow>
          (case refStar of
             Some r \<Rightarrow>
               (case tc_copy r tc1 of
                  Inl e \<Rightarrow> Inl e
                | Inr (r', tc2) \<Rightarrow>
                    (case tc_copy outTrans tc2 of
                       Inl e \<Rightarrow> Inl e
                     | Inr (o', tc3) \<Rightarrow>
                         (case concat_t r' o' tc3 of
                            Inl e \<Rightarrow> Inl e
                          | Inr (ro, tc4) \<Rightarrow> concat_t i ro tc4)))
           | None \<Rightarrow>
               (case tc_copy outTrans tc1 of
                  Inl e \<Rightarrow> Inl e
                | Inr (o', tc2) \<Rightarrow> concat_t i o' tc2)))"

fun removeState_out :: "nat \<times> transition \<Rightarrow> transition option \<Rightarrow> (nat \<times> transition) list \<Rightarrow> elim_state \<Rightarrow> error + elim_state" where
  "removeState_out i refStar [] st = Inr st"
| "removeState_out i refStar ((outState, outTrans) # outs) st =
     (case new_transition (snd i) refStar outTrans (tc_e st) of
        Inl e \<Rightarrow> Inl e
      | Inr (t, tc') \<Rightarrow>
          (case linkWithUnion (fst i) outState t (st\<lparr>tc_e := tc'\<rparr>) of
             Inl e \<Rightarrow> Inl e
           | Inr st' \<Rightarrow> removeState_out i refStar outs st'))"

fun removeState_in :: "(nat \<times> transition) list \<Rightarrow> transition option \<Rightarrow> (nat \<times> transition) list \<Rightarrow> elim_state \<Rightarrow> error + elim_state" where
  "removeState_in [] refStar outs st = Inr st"
| "removeState_in (i # ins) refStar outs st =
     (case removeState_out i refStar outs st of
        Inl e \<Rightarrow> Inl e
      | Inr st' \<Rightarrow> removeState_in ins refStar outs st')"

definition removeState :: "nat \<Rightarrow> elim_state \<Rightarrow> error + nat list \<times> elim_state" where
  "removeState state st =
     (let nl0 = nodeList st;
          affected = Set_delete state (Set_of (map fst (node_in nl0 state) @ map fst (node_out nl0 state)))
      in case unlinkNodes state state nl0 of
           (refTrans, nl) \<Rightarrow>
             (case (case refTrans of
                      Some r \<Rightarrow> (case star_t r (tc_e st) of Inl e \<Rightarrow> Inl e | Inr (s, tc') \<Rightarrow> Inr (Some s, tc'))
                    | None \<Rightarrow> Inr (None, tc_e st)) of
                Inl e \<Rightarrow> Inl e
              | Inr (refStar, tc') \<Rightarrow>
                  (case removeState_in (node_in nl state) refStar (node_out nl state)
                          (st\<lparr>nodeList := nl, tc_e := tc'\<rparr>) of
                     Inl e \<Rightarrow> Inl e
                   | Inr st' \<Rightarrow>
                       Inr (affected,
                            st'\<lparr>nodeList := unlink_all_out state (unlink_all_in state (nodeList st')),
                                remainingStates := Set_delete state (remainingStates st')\<rparr>))))"

text \<open>The cost of removing a state, and the main loop.\<close>

definition cost :: "NodeList \<Rightarrow> nat \<Rightarrow> int" where
  "cost nl state =
     (if Map_has state (node_out nl state)
      then (int (length (node_in nl state)) - 1) * (int (length (node_out nl state)) - 1) * 3
      else int (length (node_in nl state)) * int (length (node_out nl state)) * 2)"

partial_function (option) eliminate_loop :: "elim_state \<Rightarrow> (error + elim_state) option" where
  "eliminate_loop st =
     (if length (remainingStates st) > 0 then
        (case minOf (remainingStates st) (cost (nodeList st)) of
           None \<Rightarrow> Some (Inl TypeError)
         | Some pickedState \<Rightarrow>
             (case removeState pickedState st of
                Inl e \<Rightarrow> Some (Inl e)
              | Inr (affected, st1) \<Rightarrow>
                  Option.bind (trivialOperations affected st1)
                    (\<lambda>r. case r of
                       Inl e \<Rightarrow> Some (Inl e)
                     | Inr st2 \<Rightarrow> eliminate_loop st2)))
      else Some (Inr st))"

declare eliminate_loop.simps [code]

definition remaining_next :: "NodeList \<Rightarrow> nat \<Rightarrow> nat \<Rightarrow> nat list \<Rightarrow> error + nat list \<times> nat list" where
  "remaining_next nl final n remaining =
     Inr (map fst (node_out nl n),
          if n \<noteq> initial nl \<and> n \<noteq> final then Set_add n remaining else remaining)"

definition eliminateStates :: "NodeList \<Rightarrow> TransitionCreator \<Rightarrow> (error + elim_state) option" where
  "eliminateStates nl tc0 =
     (case firstOf (finals nl) of
        None \<Rightarrow> Some (Inl TypeError)
      | Some final \<Rightarrow>
          Option.bind (DFS (initial nl) (remaining_next nl final) [])
            (\<lambda>r. case r of
               Inl e \<Rightarrow> Some (Inl e)
             | Inr remaining \<Rightarrow>
                 Option.bind
                   (trivialOperations remaining \<lparr>nodeList = nl, tc_e = tc0, remainingStates = remaining\<rparr>)
                   (\<lambda>r'. case r' of
                      Inl e \<Rightarrow> Some (Inl e)
                    | Inr st \<Rightarrow> eliminate_loop st)))"

subsection \<open>stateElimination and faToRegex\<close>

definition stateElimination :: "'a FAIterator \<Rightarrow> int \<Rightarrow> (error + expression \<times> TransitionCreator) option" where
  "stateElimination iter maxAstNodes =
     Option.bind (createNodeList iter (TransitionCreator_new maxAstNodes))
       (\<lambda>r. case r of
          Inl e \<Rightarrow> Some (Inl e)
        | Inr (None, tc1) \<Rightarrow> Some (tc_emptyExpression tc1)
        | Inr (Some nl, tc1) \<Rightarrow>
            Option.bind (eliminateStates nl tc1)
              (\<lambda>r'. case r' of
                 Inl e \<Rightarrow> Some (Inl e)
               | Inr st \<Rightarrow>
                   (case firstOf (finals (nodeList st)) of
                      None \<Rightarrow> Some (Inl TypeError)
                    | Some finalState \<Rightarrow>
                        (let ins = node_in (nodeList st) finalState in
                         if length ins \<noteq> 1 \<or> \<not> Map_has (initial (nodeList st)) ins
                         then Some (Inl StateEliminationFailed)
                         else
                           (case Map_get (initial (nodeList st)) ins of
                              None \<Rightarrow> Some (Inl TypeError)
                            | Some (Elem (Alternation alts)) \<Rightarrow> Some (tc_expression alts (tc_e st))
                            | Some (Concat c) \<Rightarrow> Some (tc_expression [c] (tc_e st))
                            | Some (Elem e) \<Rightarrow>
                                (case tc_concat [e] (tc_e st) of
                                   Inl err \<Rightarrow> Some (Inl err)
                                 | Inr (c, tc') \<Rightarrow> Some (tc_expression [c] tc')))))))"

text \<open>
  The options of \<open>faToRegex\<close>; a field that is not given is \<open>None\<close>. The number of
  passes may be \<open>Infinity\<close> (the default), and the loop
  \<open>while (optimizationPasses > 0 && optimize(expression)) optimizationPasses--\<close> need not
  end: not returning is the value \<open>None\<close>.
\<close>

record ToRegexOptions =
  maximumNodes :: "int option"
  maximumOptimizationPasses :: "enat option"

partial_function (option) optimize_loop :: "enat \<Rightarrow> expression \<Rightarrow> expression option" where
  "optimize_loop optimizationPasses expr =
     (if optimizationPasses > 0 then
        (case optimize expr of
           (optimized, expr') \<Rightarrow>
             if optimized then optimize_loop (optimizationPasses - 1) expr' else Some expr')
      else Some expr)"

declare optimize_loop.simps [code]

definition faToRegex :: "'a FAIterator \<Rightarrow> ToRegexOptions \<Rightarrow> (error + expression) option" where
  "faToRegex iter options =
     (let maxAstNodes = (case maximumNodes options of Some m \<Rightarrow> m | None \<Rightarrow> 10000);
          optimizationPasses = (case maximumOptimizationPasses options of Some p \<Rightarrow> p | None \<Rightarrow> \<infinity>)
      in Option.bind (stateElimination iter maxAstNodes)
           (\<lambda>r. case r of
              Inl e \<Rightarrow> Some (Inl e)
            | Inr (expr, tc') \<Rightarrow>
                Option.bind (optimize_loop optimizationPasses expr) (\<lambda>expr'. Some (Inr expr'))))"

section \<open>Properties of character sets\<close>

text \<open>
  The four invariants of \<open>CharSet.ranges\<close> as the class documents them: the ranges are
  sorted by ascending \<open>min\<close>, pairwise disjoint, non-adjacent, and every range lies in
  \<open>[0, maximum]\<close> with \<open>min \<le> max\<close>.
\<close>

definition valid_range :: "int \<Rightarrow> CharRange \<Rightarrow> bool" where
  "valid_range m r = (0 \<le> min_r r \<and> min_r r \<le> max_r r \<and> max_r r \<le> m)"

definition in_bounds :: "int \<Rightarrow> CharRange list \<Rightarrow> bool" where
  "in_bounds m rs = list_all (valid_range m) rs"

definition sorted_by_min :: "CharRange list \<Rightarrow> bool" where
  "sorted_by_min rs = sorted (map min_r rs)"

definition disjoint_ranges :: "CharRange \<Rightarrow> CharRange \<Rightarrow> bool" where
  "disjoint_ranges r s = (max_r r < min_r s \<or> max_r s < min_r r)"

fun pairwise_disjoint :: "CharRange list \<Rightarrow> bool" where
  "pairwise_disjoint [] = True"
| "pairwise_disjoint (r # rs) = (list_all (disjoint_ranges r) rs \<and> pairwise_disjoint rs)"

fun non_adjacent :: "CharRange list \<Rightarrow> bool" where
  "non_adjacent (p # q # rs) = (max_r p + 1 < min_r q \<and> non_adjacent (q # rs))"
| "non_adjacent _ = True"

definition normal_form :: "CharSet \<Rightarrow> bool" where
  "normal_form s = (sorted_by_min (ranges s) \<and> pairwise_disjoint (ranges s) \<and>
     non_adjacent (ranges s) \<and> in_bounds (maximum s) (ranges s))"

text \<open>An argument of \<open>union\<close>, \<open>intersect\<close> or \<open>without\<close> that, when a set, is in normal form.\<close>

definition arg_normal :: "ranges_or_set \<Rightarrow> bool" where
  "arg_normal d = (case d of OfSet s \<Rightarrow> normal_form s | OfRanges rs \<Rightarrow> True)"

text \<open>
  For the proofs: \<open>nfl lo rs\<close> says the same of a list whose first range starts at
  \<open>lo\<close> or later (without the upper bound), \<open>chars rs\<close> is the set of characters of a list
  of ranges, and \<open>coalesce_from cur rest\<close> is the loop of \<open>optimizeSortedRanges\<close> as a
  recursion over the ranges still to be read, \<open>cur\<close> being \<open>ranges[i - deleteCount]\<close>
  (lemma \<open>optimizeSortedRanges_coalesce\<close>).
\<close>

fun nfl :: "int \<Rightarrow> CharRange list \<Rightarrow> bool" where
  "nfl lo [] = True"
| "nfl lo (r # rs) = (lo \<le> min_r r \<and> min_r r \<le> max_r r \<and> nfl (max_r r + 2) rs)"

definition chars_of :: "CharRange \<Rightarrow> int set" where
  "chars_of r = {min_r r .. max_r r}"

definition chars :: "CharRange list \<Rightarrow> int set" where
  "chars rs = (\<Union>r \<in> set rs. chars_of r)"

fun coalesce_from :: "CharRange \<Rightarrow> CharRange list \<Rightarrow> CharRange list" where
  "coalesce_from cur [] = [cur]"
| "coalesce_from cur (next # rest) =
     (if max_r cur \<ge> max_r next then coalesce_from cur rest
      else if min_r next \<le> max_r cur + 1
        then coalesce_from \<lparr>min_r = min_r cur, max_r = max_r next\<rparr> rest
      else cur # coalesce_from next rest)"

text \<open>
  A call of one of the nine binary methods of a set \<open>a\<close> with a set \<open>b\<close> as its
  argument, and what comes back: the returned value, or the error thrown. The six
  methods after \<open>without\<close> contain no \<open>throw\<close> and call nothing that throws.
\<close>

datatype binary_operation =
    Op_union | Op_intersect | Op_without | Op_isSupersetOf | Op_isSubsetOf
  | Op_isDisjointWith | Op_commonCharacter | Op_equals | Op_compare

datatype outcome = SetResult CharSet | BoolResult bool | NumberResult int | UndefinedResult

definition call_binary :: "binary_operation \<Rightarrow> CharSet \<Rightarrow> CharSet \<Rightarrow> error + outcome" where
  "call_binary oper a b =
     (case oper of
        Op_union \<Rightarrow> map_sum id SetResult (CharSet_union a [OfSet b])
      | Op_intersect \<Rightarrow> map_sum id SetResult (CharSet_intersect a (OfSet b))
      | Op_without \<Rightarrow> map_sum id SetResult (CharSet_without a (OfSet b))
      | Op_isSupersetOf \<Rightarrow> Inr (BoolResult (isSupersetOf a (SetArg b)))
      | Op_isSubsetOf \<Rightarrow> Inr (BoolResult (isSubsetOf a (SetArg b)))
      | Op_isDisjointWith \<Rightarrow> Inr (BoolResult (isDisjointWith a (SetArg b)))
      | Op_commonCharacter \<Rightarrow>
          Inr (case commonCharacter a (SetArg b) of None \<Rightarrow> UndefinedResult | Some c \<Rightarrow> NumberResult c)
      | Op_equals \<Rightarrow> Inr (BoolResult (CharSet_equals a b))
      | Op_compare \<Rightarrow> Inr (NumberResult (CharSet_compare a b)))"

text \<open>The methods that call \<open>checkCompatibility\<close> on a set argument.\<close>

definition checks_compatibility :: "binary_operation \<Rightarrow> bool" where
  "checks_compatibility oper = (oper = Op_union \<or> oper = Op_intersect \<or> oper = Op_without)"

text \<open>A cache of interned sets that holds, for every key, the set \<open>f\<close> builds for it.\<close>

definition cache_inv :: "(int \<Rightarrow> CharSet) \<Rightarrow> (int \<rightharpoonup> CharSet) \<Rightarrow> bool" where
  "cache_inv f c = (\<forall>m s. c m = Some s \<longrightarrow> s = f m)"

text \<open>Two sets over \<open>[0, 10]\<close> used as concrete inputs.\<close>

definition set_1_3_6_8 :: CharSet where
  "set_1_3_6_8 = \<lparr>maximum = 10, ranges = [\<lparr>min_r = 1, max_r = 3\<rparr>, \<lparr>min_r = 6, max_r = 8\<rparr>]\<rparr>"

definition set_2_6 :: CharSet where
  "set_2_6 = \<lparr>maximum = 10, ranges = [\<lparr>min_r = 2, max_r = 6\<rparr>]\<rparr>"

section \<open>Properties of the graph builder and the simplifier\<close>

text \<open>
  The order of the sorted out transitions of a state. \<open>empties_first\<close>: no transition
  with a non-empty set comes before one with an empty set. \<open>nonempties_first\<close>: no
  transition with an empty set comes before one with a non-empty set.
\<close>

fun empties_first :: "('a \<times> CharSet) list \<Rightarrow> bool" where
  "empties_first [] = True"
| "empties_first (x # xs) = ((isEmpty (snd x) \<or> list_all (\<lambda>y. \<not> isEmpty (snd y)) xs) \<and> empties_first xs)"

fun nonempties_first :: "('a \<times> CharSet) list \<Rightarrow> bool" where
  "nonempties_first [] = True"
| "nonempties_first (x # xs) = ((\<not> isEmpty (snd x) \<or> list_all (\<lambda>y. isEmpty (snd y)) xs) \<and> nonempties_first xs)"

text \<open>A state with two out transitions, the first of them with an empty set.\<close>

definition example_out :: "nat FAIterator" where
  "example_out = \<lparr>initial_fa = 0,
     getOut = (\<lambda>n. if n = 0 then [(1, CharSet_empty 65535), (2, \<lparr>maximum = 65535, ranges = [\<lparr>min_r = 98, max_r = 98\<rparr>]\<rparr>)] else []),
     isFinal = (\<lambda>n. n = 2)\<rparr>"

text \<open>The number of nodes of a tree.\<close>

fun count_nodes_element :: "element \<Rightarrow> nat"
  and count_nodes_concatenation :: "concatenation \<Rightarrow> nat"
  and count_nodes_alternatives :: "concatenation list \<Rightarrow> nat"
  and count_nodes_elements :: "element list \<Rightarrow> nat" where
  "count_nodes_element (CharacterClass cs) = 1"
| "count_nodes_element (Alternation alts) = 1 + count_nodes_alternatives alts"
| "count_nodes_element (Quantifier alts mn mx) = 1 + count_nodes_alternatives alts"
| "count_nodes_element (Assertion kind negate alts) = 1 + count_nodes_alternatives alts"
| "count_nodes_concatenation (Concatenation es) = 1 + count_nodes_elements es"
| "count_nodes_alternatives [] = 0"
| "count_nodes_alternatives (c # cs) = count_nodes_concatenation c + count_nodes_alternatives cs"
| "count_nodes_elements [] = 0"
| "count_nodes_elements (e # es) = count_nodes_element e + count_nodes_elements es"

definition count_nodes :: "expression \<Rightarrow> nat" where
  "count_nodes e = (case e of Expression alts \<Rightarrow> 1 + count_nodes_alternatives alts)"

text \<open>The expressions \<open>(|a)\<close> and \<open>a?\<close>.\<close>

definition char_a :: element where
  "char_a = CharacterClass \<lparr>maximum = 65535, ranges = [\<lparr>min_r = 97, max_r = 97\<rparr>]\<rparr>"

definition empty_or_a :: expression where
  "empty_or_a = Expression [Concatenation [], Concatenation [char_a]]"

definition optional_a :: expression where
  "optional_a = Expression [Concatenation [Quantifier [Concatenation [char_a]] 0 1]]"

text \<open>
  A callback of \<open>filterMut\<close> that, when it keeps the item, changes neither \<open>prev\<close> nor the
  flag, and sets the flag when it drops the item.
\<close>

definition flag_callback :: "('a \<Rightarrow> 'a option \<Rightarrow> bool \<Rightarrow> bool \<times> 'a option \<times> bool) \<Rightarrow> bool" where
  "flag_callback f = (\<forall>x prev s keep prev' s'. f x prev s = (keep, prev', s') \<longrightarrow>
      (if keep then prev' = prev \<and> s' = s else s'))"

text \<open>The number of nodes of a transition, which is an element or a concatenation.\<close>

definition count_nodes_transition :: "transition \<Rightarrow> nat" where
  "count_nodes_transition t = (case t of Elem e \<Rightarrow> count_nodes_element e | Concat c \<Rightarrow> count_nodes_concatenation c)"

text \<open>
  An automaton of two states, both final, with one transition on \<open>a\<close>: it accepts the
  empty word and \<open>a\<close>.
\<close>

definition empty_or_a_fa :: "nat FAIterator" where
  "empty_or_a_fa = \<lparr>initial_fa = 0,
     getOut = (\<lambda>n. if n = 0 then [(1, \<lparr>maximum = 65535, ranges = [\<lparr>min_r = 97, max_r = 97\<rparr>]\<rparr>)] else []),
     isFinal = (\<lambda>n. n = 0 \<or> n = 1)\<rparr>"

text \<open>The ceiling that \<open>faToRegex\<close> gives the factory: \<open>maximumNodes\<close>, by default 10000.\<close>

definition maxAstNodes_of :: "ToRegexOptions \<Rightarrow> int" where
  "maxAstNodes_of options = (case maximumNodes options of Some m \<Rightarrow> m | None \<Rightarrow> 10000)"

text \<open>
  The states that the builder's search reaches: the initial state and every target of an
  out transition of a reached state, whatever its set of characters.
\<close>

inductive_set reachable :: "'a FAIterator \<Rightarrow> 'a set" for iter :: "'a FAIterator" where
  initial: "initial_fa iter \<in> reachable iter"
| out: "n \<in> reachable iter \<Longrightarrow> (n', cs) \<in> set (getOut iter n) \<Longrightarrow> n' \<in> reachable iter"

text \<open>An automaton of two states and one transition on \<open>a\<close>, with no final state.\<close>

definition no_final_fa :: "nat FAIterator" where
  "no_final_fa = \<lparr>initial_fa = 0,
     getOut = (\<lambda>n. if n = 0 then [(1, \<lparr>maximum = 65535, ranges = [\<lparr>min_r = 97, max_r = 97\<rparr>]\<rparr>)] else []),
     isFinal = (\<lambda>n. False)\<rparr>"

text \<open>
  The invariant of the builder on an automaton without final states, after the states
  \<open>vis\<close> were visited and while the states \<open>cur\<close> are being visited: no node is
  final, the cache numbers the nodes after the initial one in the order of their
  creation, and only the initial node and the nodes of these states have out
  transitions.
\<close>

definition build_inv :: "'a list \<Rightarrow> 'a set \<Rightarrow> 'a build_state \<Rightarrow> bool" where
  "build_inv vis cur s =
     (finals (nodeList_b s) = [] \<and>
      0 < length (nodes (nodeList_b s)) \<and>
      map snd (cache_b s) = [1 ..< length (nodes (nodeList_b s))] \<and>
      (\<forall>v < length (nodes (nodeList_b s)). out_m (nodes (nodeList_b s) ! v) \<noteq> [] \<longrightarrow>
           v = 0 \<or> (\<exists>y \<in> set vis \<union> cur. map_of (cache_b s) y = Some v)))"

text \<open>A tree without an assertion (\<open>copy\<close> throws on an assertion).\<close>

fun assertion_free_element :: "element \<Rightarrow> bool"
  and assertion_free_concatenation :: "concatenation \<Rightarrow> bool"
  and assertion_free_alternatives :: "concatenation list \<Rightarrow> bool"
  and assertion_free_elements :: "element list \<Rightarrow> bool" where
  "assertion_free_element (CharacterClass cs) = True"
| "assertion_free_element (Alternation alts) = assertion_free_alternatives alts"
| "assertion_free_element (Quantifier alts mn mx) = assertion_free_alternatives alts"
| "assertion_free_element (Assertion kind negate alts) = False"
| "assertion_free_concatenation (Concatenation es) = assertion_free_elements es"
| "assertion_free_alternatives [] = True"
| "assertion_free_alternatives (c # cs) = (assertion_free_concatenation c \<and> assertion_free_alternatives cs)"
| "assertion_free_elements [] = True"
| "assertion_free_elements (e # es) = (assertion_free_element e \<and> assertion_free_elements es)"

definition assertion_free :: "transition \<Rightarrow> bool" where
  "assertion_free t = (case t of Elem e \<Rightarrow> assertion_free_element e | Concat c \<Rightarrow> assertion_free_concatenation c)"

text \<open>
  What a call of the factory that builds \<open>n\<close> nodes returns when every node is counted
  and the ceiling is checked: the error \<open>TooManyNodesError\<close> when the count would exceed
  \<open>max\<close>, else the result \<open>x\<close> and the factory with \<open>n\<close> added to its counter.
\<close>

definition counted :: "TransitionCreator \<Rightarrow> nat \<Rightarrow> 'a \<Rightarrow> error + 'a \<times> TransitionCreator" where
  "counted tc n x =
     (if int (counter tc + n) > max_tc tc then Inl (TooManyNodesError (max_tc tc))
      else Inr (x, tc\<lparr>counter := counter tc + n\<rparr>))"

section \<open>Lemmas about the character sets\<close>

lemma loop_coalesce:
  "length rs = n \<Longrightarrow> i < n \<Longrightarrow> d \<le> i \<Longrightarrow>
   (case optimizeSortedRanges_loop n i d rs of (d', rs') \<Rightarrow>
      length rs' = n \<and> d' < n \<and>
      take (n - d') rs' = take (i - d) rs @ coalesce_from (rs ! (i - d)) (drop (i + 1) rs))"
proof (induction n i d rs rule: optimizeSortedRanges_loop.induct)
  case (1 n i d rs)
  show ?case
  proof (cases "i + 1 < n")
    case False
    with 1(4-6) have "n = i + 1" by simp
    then have "take (n - d) rs = take (i - d) rs @ [rs ! (i - d)]"
      using 1(4,6) by (simp add: take_Suc_conv_app_nth Suc_diff_le)
    with False 1(4-6) show ?thesis by simp
  next
    case True
    let ?cur = "rs ! (i - d)" and ?next = "rs ! (i + 1)"
    have dr: "drop (i + 1) rs = ?next # drop (i + 2) rs"
      using True 1(4) by (metis Cons_nth_drop_Suc Suc_eq_plus1 add_2_eq_Suc')
    show ?thesis
    proof (cases "max_r ?cur \<ge> max_r ?next")
      case A: True
      have "case optimizeSortedRanges_loop n (i + 1) (d + 1) rs of (d', rs') \<Rightarrow>
        length rs' = n \<and> d' < n \<and>
        take (n - d') rs' = take (i + 1 - (d + 1)) rs @ coalesce_from (rs ! (i + 1 - (d + 1))) (drop (i + 1 + 1) rs)"
        using 1(1)[OF True refl refl A] 1(4-6) True by simp
      then show ?thesis using True A dr
        by (subst optimizeSortedRanges_loop.simps) (simp add: Let_def)
    next
      case A: False
      show ?thesis
      proof (cases "min_r ?next \<le> max_r ?cur + 1")
        case B: True
        let ?rs2 = "rs[i - d := \<lparr>min_r = min_r ?cur, max_r = max_r ?next\<rparr>]"
        have "case optimizeSortedRanges_loop n (i + 1) (d + 1) ?rs2 of (d', rs') \<Rightarrow>
          length rs' = n \<and> d' < n \<and>
          take (n - d') rs' = take (i + 1 - (d + 1)) ?rs2 @ coalesce_from (?rs2 ! (i + 1 - (d + 1))) (drop (i + 1 + 1) ?rs2)"
          using 1(2)[OF True refl refl A B] 1(4-6) True by simp
        moreover have "i - d < length rs" using 1(4-6) by simp
        ultimately show ?thesis using True A B dr
          by (subst optimizeSortedRanges_loop.simps) (simp add: Let_def)
      next
        case B: False
        let ?rs3 = "rs[i - d + 1 := ?next]"
        have "case optimizeSortedRanges_loop n (i + 1) d ?rs3 of (d', rs') \<Rightarrow>
          length rs' = n \<and> d' < n \<and>
          take (n - d') rs' = take (i + 1 - d) ?rs3 @ coalesce_from (?rs3 ! (i + 1 - d)) (drop (i + 1 + 1) ?rs3)"
          using 1(3)[OF True refl refl A B] 1(4-6) True by simp
        moreover have "i + 1 - d = Suc (i - d)" using 1(6) by simp
        moreover have "Suc (i - d) < length rs" using 1(4-6) True by simp
        ultimately show ?thesis using True A B dr 1(4-6)
          by (subst optimizeSortedRanges_loop.simps) (simp add: Let_def take_Suc_conv_app_nth)
      qed
    qed
  qed
qed

lemma optimizeSortedRanges_coalesce:
  "optimizeSortedRanges rs = (case rs of [] \<Rightarrow> [] | r # rest \<Rightarrow> coalesce_from r rest)"
proof (cases rs)
  case Nil
  then show ?thesis by (simp add: optimizeSortedRanges_def)
next
  case (Cons r rest)
  obtain d' rs' where l: "optimizeSortedRanges_loop (length rs) 0 0 rs = (d', rs')"
    by (cases "optimizeSortedRanges_loop (length rs) 0 0 rs")
  have "length rs' = length rs \<and> d' < length rs \<and> take (length rs - d') rs' = coalesce_from r rest"
    using loop_coalesce[of rs "length rs" 0 0] l Cons by simp
  then show ?thesis using l Cons by (auto simp: optimizeSortedRanges_def)
qed

lemma chars_simps [simp]: "chars [] = {}" "chars (r # rs) = chars_of r \<union> chars rs"
  "chars (xs @ ys) = chars xs \<union> chars ys"
  by (auto simp: chars_def)

lemma nfl_mono: "nfl hi rs \<Longrightarrow> lo \<le> hi \<Longrightarrow> nfl lo rs"
  by (cases rs) auto

lemma nfl_lower: "nfl lo rs \<Longrightarrow> r \<in> set rs \<Longrightarrow> lo \<le> min_r r \<and> min_r r \<le> max_r r"
proof (induction rs arbitrary: lo)
  case (Cons a rs)
  then show ?case by (auto dest!: Cons.IH[rotated])
qed simp

lemma nfl_chars_lower: "nfl lo rs \<Longrightarrow> x \<in> chars rs \<Longrightarrow> lo \<le> x"
  by (auto simp: chars_def chars_of_def dest: nfl_lower)

lemma nfl_sorted: "nfl lo rs \<Longrightarrow> sorted (map min_r rs)"
proof (induction rs arbitrary: lo)
  case (Cons a rs)
  then show ?case by (auto dest: nfl_lower)
qed simp

lemma nfl_pairwise_disjoint: "nfl lo rs \<Longrightarrow> pairwise_disjoint rs"
proof (induction rs arbitrary: lo)
  case (Cons a rs)
  then show ?case by (auto simp: list_all_iff disjoint_ranges_def dest: nfl_lower)
qed simp

lemma nfl_non_adjacent: "nfl lo rs \<Longrightarrow> non_adjacent rs"
proof (induction rs arbitrary: lo rule: non_adjacent.induct)
  case (1 p q rs)
  then show ?case by auto
qed simp_all

lemma non_adjacent_nfl:
  "non_adjacent rs \<Longrightarrow> list_all (\<lambda>r. min_r r \<le> max_r r) rs \<Longrightarrow> (case rs of [] \<Rightarrow> True | r # _ \<Rightarrow> lo \<le> min_r r) \<Longrightarrow> nfl lo rs"
proof (induction rs arbitrary: lo rule: non_adjacent.induct)
  case (1 p q rs)
  then show ?case by auto
qed auto

lemma normal_form_nfl:
  "normal_form s \<longleftrightarrow> nfl 0 (ranges s) \<and> list_all (\<lambda>r. max_r r \<le> maximum s) (ranges s)"
proof
  assume n: "normal_form s"
  then have "list_all (\<lambda>r. min_r r \<le> max_r r) (ranges s)" "list_all (\<lambda>r. max_r r \<le> maximum s) (ranges s)"
    "case ranges s of [] \<Rightarrow> True | r # _ \<Rightarrow> 0 \<le> min_r r"
    by (auto simp: normal_form_def in_bounds_def valid_range_def list_all_iff split: list.splits)
  with n show "nfl 0 (ranges s) \<and> list_all (\<lambda>r. max_r r \<le> maximum s) (ranges s)"
    using non_adjacent_nfl[of "ranges s" 0] by (simp add: normal_form_def)
next
  assume "nfl 0 (ranges s) \<and> list_all (\<lambda>r. max_r r \<le> maximum s) (ranges s)"
  then show "normal_form s"
    by (auto simp: normal_form_def sorted_by_min_def in_bounds_def valid_range_def list_all_iff
        dest: nfl_sorted nfl_pairwise_disjoint nfl_non_adjacent nfl_lower)
qed

subsection \<open>coalesce\<close>

lemma coalesce_nfl:
  "lo \<le> min_r cur \<Longrightarrow> min_r cur \<le> max_r cur \<Longrightarrow> sorted (map min_r (cur # rest)) \<Longrightarrow>
   list_all (\<lambda>r. min_r r \<le> max_r r) rest \<Longrightarrow> nfl lo (coalesce_from cur rest)"
proof (induction rest arbitrary: cur lo)
  case Nil
  then show ?case by simp
next
  case (Cons nxt rest)
  show ?case
  proof (cases "max_r cur \<ge> max_r nxt")
    case True
    then show ?thesis using Cons.prems by (auto intro!: Cons.IH)
  next
    case A: False
    show ?thesis
    proof (cases "min_r nxt \<le> max_r cur + 1")
      case True
      then show ?thesis using A Cons.prems by (auto intro!: Cons.IH)
    next
      case False
      have "nfl (max_r cur + 2) (coalesce_from nxt rest)"
        using False A Cons.prems by (intro Cons.IH) auto
      then show ?thesis using False A Cons.prems by simp
    qed
  qed
qed

lemma coalesce_max:
  "max_r cur \<le> m \<Longrightarrow> list_all (\<lambda>r. max_r r \<le> m) rest \<Longrightarrow>
   list_all (\<lambda>r. max_r r \<le> m) (coalesce_from cur rest)"
  by (induction rest arbitrary: cur) auto

lemma coalesce_chars:
  "min_r cur \<le> max_r cur \<Longrightarrow> sorted (map min_r (cur # rest)) \<Longrightarrow>
   list_all (\<lambda>r. min_r r \<le> max_r r) rest \<Longrightarrow>
   chars (coalesce_from cur rest) = chars (cur # rest)"
proof (induction rest arbitrary: cur)
  case Nil
  then show ?case by simp
next
  case (Cons nxt rest)
  show ?case
  proof (cases "max_r cur \<ge> max_r nxt")
    case True
    have "chars (coalesce_from cur rest) = chars (cur # rest)"
      using Cons.prems by (intro Cons.IH) auto
    moreover have "chars_of nxt \<subseteq> chars_of cur" using True Cons.prems by (auto simp: chars_of_def)
    ultimately show ?thesis using True by auto
  next
    case A: False
    show ?thesis
    proof (cases "min_r nxt \<le> max_r cur + 1")
      case True
      let ?c = "\<lparr>min_r = min_r cur, max_r = max_r nxt\<rparr>"
      have "chars (coalesce_from ?c rest) = chars (?c # rest)"
        using Cons.prems A by (intro Cons.IH) auto
      moreover have "chars_of ?c = chars_of cur \<union> chars_of nxt"
        using True A Cons.prems by (auto simp: chars_of_def)
      ultimately show ?thesis using True A by auto
    next
      case False
      have "chars (coalesce_from nxt rest) = chars (nxt # rest)"
        using Cons.prems by (intro Cons.IH) auto
      then show ?thesis using False A by auto
    qed
  qed
qed

lemma merge_set: "set (unionRanges_merge a b) = set a \<union> set b"
  by (induction a b rule: unionRanges_merge.induct) auto

lemma merge_sorted:
  "sorted (map min_r a) \<Longrightarrow> sorted (map min_r b) \<Longrightarrow> sorted (map min_r (unionRanges_merge a b))"
  by (induction a b rule: unionRanges_merge.induct) (auto simp: merge_set)

lemma merge_chars: "chars (unionRanges_merge a b) = chars a \<union> chars b"
  by (simp add: chars_def merge_set)

lemma optimizeSortedRanges_nfl:
  assumes "sorted (map min_r rs)" "list_all (\<lambda>r. lo \<le> min_r r \<and> min_r r \<le> max_r r) rs"
  shows "nfl lo (optimizeSortedRanges rs)"
proof (cases rs)
  case Nil
  then show ?thesis by (simp add: optimizeSortedRanges_coalesce)
next
  case (Cons r rest)
  then show ?thesis using assms
    by (auto simp: optimizeSortedRanges_coalesce list_all_iff intro!: coalesce_nfl)
qed

lemma optimizeSortedRanges_max:
  "list_all (\<lambda>r. max_r r \<le> m) rs \<Longrightarrow> list_all (\<lambda>r. max_r r \<le> m) (optimizeSortedRanges rs)"
  by (cases rs) (auto simp: optimizeSortedRanges_coalesce intro: coalesce_max)

lemma optimizeSortedRanges_chars:
  assumes "sorted (map min_r rs)" "list_all (\<lambda>r. min_r r \<le> max_r r) rs"
  shows "chars (optimizeSortedRanges rs) = chars rs"
proof (cases rs)
  case Nil
  then show ?thesis by (simp add: optimizeSortedRanges_coalesce)
next
  case (Cons r rest)
  then show ?thesis using assms coalesce_chars[of r rest]
    by (auto simp: optimizeSortedRanges_coalesce)
qed

lemma nfl_valid: "nfl lo rs \<Longrightarrow> list_all (\<lambda>r. lo \<le> min_r r \<and> min_r r \<le> max_r r) rs"
  by (auto simp: list_all_iff dest: nfl_lower)

lemma unionRanges_nfl:
  "nfl lo a \<Longrightarrow> nfl lo b \<Longrightarrow> nfl lo (unionRanges a b)"
  unfolding unionRanges_def
  by (intro optimizeSortedRanges_nfl merge_sorted nfl_sorted)
     (auto simp: list_all_iff merge_set dest: nfl_lower)

lemma unionRanges_max:
  "list_all (\<lambda>r. max_r r \<le> m) a \<Longrightarrow> list_all (\<lambda>r. max_r r \<le> m) b \<Longrightarrow>
   list_all (\<lambda>r. max_r r \<le> m) (unionRanges a b)"
  unfolding unionRanges_def
  by (intro optimizeSortedRanges_max) (auto simp: list_all_iff merge_set)

lemma unionRanges_chars:
  "nfl lo a \<Longrightarrow> nfl lo' b \<Longrightarrow> chars (unionRanges a b) = chars a \<union> chars b"
  unfolding unionRanges_def
  by (subst optimizeSortedRanges_chars)
     (auto simp: merge_chars list_all_iff merge_set intro: merge_sorted nfl_sorted dest: nfl_lower)

lemma optimizeRanges_nfl:
  "list_all (\<lambda>r. lo \<le> min_r r \<and> min_r r \<le> max_r r) rs \<Longrightarrow> nfl lo (optimizeRanges rs)"
  unfolding optimizeRanges_def
  by (intro optimizeSortedRanges_nfl) (auto simp: list_all_iff)

lemma optimizeRanges_max:
  "list_all (\<lambda>r. max_r r \<le> m) rs \<Longrightarrow> list_all (\<lambda>r. max_r r \<le> m) (optimizeRanges rs)"
  unfolding optimizeRanges_def
  by (intro optimizeSortedRanges_max) (auto simp: list_all_iff)

subsection \<open>intersect\<close>

lemma intersectRanges_nfl:
  "nfl la a \<Longrightarrow> nfl lb b \<Longrightarrow> nfl (max la lb) (intersectRanges a b)"
proof (induction a b arbitrary: la lb rule: intersectRanges.induct)
  case (1 aR as bR bs)
  have va: "la \<le> min_r aR" "min_r aR \<le> max_r aR" "nfl (max_r aR + 2) as"
   and vb: "lb \<le> min_r bR" "min_r bR \<le> max_r bR" "nfl (max_r bR + 2) bs"
    using 1(6,7) by auto
  show ?case
  proof (cases "max_r aR < min_r bR")
    case True
    have "nfl (max (max_r aR + 2) lb) (intersectRanges as (bR # bs))"
      using 1(1)[OF True va(3) 1(7)] .
    then show ?thesis using True va by (auto elim: nfl_mono)
  next
    case A: False
    show ?thesis
    proof (cases "max_r bR < min_r aR")
      case True
      have "nfl (max la (max_r bR + 2)) (intersectRanges (aR # as) bs)"
        using 1(2)[OF A True 1(6) vb(3)] .
      then show ?thesis using True A vb by (auto elim: nfl_mono)
    next
      case B: False
      show ?thesis
      proof (cases "max_r aR < max_r bR")
        case True
        have "nfl (max (max_r aR + 2) lb) (intersectRanges as (bR # bs))"
          using 1(3)[OF A B True va(3) 1(7)] .
        then have "nfl (max_r aR + 2) (intersectRanges as (bR # bs))" by (rule nfl_mono) simp
        then show ?thesis using True A B va vb by (auto simp: min_def max_def)
      next
        case C: False
        show ?thesis
        proof (cases "max_r bR < max_r aR")
          case True
          have "nfl (max la (max_r bR + 2)) (intersectRanges (aR # as) bs)"
            using 1(4)[OF A B C True 1(6) vb(3)] .
          then have "nfl (max_r bR + 2) (intersectRanges (aR # as) bs)" by (rule nfl_mono) simp
          then show ?thesis using True A B C va vb by (auto simp: min_def max_def)
        next
          case D: False
          have "nfl (max (max_r aR + 2) (max_r bR + 2)) (intersectRanges as bs)"
            using 1(5)[OF A B C D va(3) vb(3)] .
          then have "nfl (max_r aR + 2) (intersectRanges as bs)" by (rule nfl_mono) simp
          then show ?thesis using A B C D va vb by (auto simp: min_def max_def)
        qed
      qed
    qed
  qed
qed simp_all

lemma intersectRanges_max:
  "list_all (\<lambda>r. max_r r \<le> m) a \<Longrightarrow> list_all (\<lambda>r. max_r r \<le> m) (intersectRanges a b)"
  by (induction a b rule: intersectRanges.induct) (auto simp: min_def)

subsection \<open>without\<close>

lemma withoutRanges_nfl:
  "nfl la a \<Longrightarrow> nfl lb b \<Longrightarrow> nfl la (withoutRanges a b)"
proof (induction a b arbitrary: la lb rule: withoutRanges.induct)
  case (1 aR as bR bs)
  have va: "la \<le> min_r aR" "min_r aR \<le> max_r aR" "nfl (max_r aR + 2) as"
   and vb: "lb \<le> min_r bR" "min_r bR \<le> max_r bR" "nfl (max_r bR + 2) bs"
    using 1(7,8) by auto
  let ?a' = "\<lparr>min_r = max_r bR + 1, max_r = max_r aR\<rparr>"
  show ?case
  proof (cases "max_r aR < min_r bR")
    case True
    then show ?thesis using 1(1)[OF True va(3) 1(8)] va by simp
  next
    case A: False
    show ?thesis
    proof (cases "max_r bR < min_r aR")
      case True
      then show ?thesis using 1(2)[OF A True 1(7) vb(3)] A by simp
    next
      case B: False
      show ?thesis
      proof (cases "min_r aR < min_r bR")
        case C: True
        show ?thesis
        proof (cases "max_r bR < max_r aR")
          case True
          have "nfl (max_r bR + 1) (?a' # as)" using True va by simp
          from 1(3)[OF A B C True this vb(3)]
          have "nfl (min_r bR - 1 + 2) (withoutRanges (?a' # as) bs)"
            by (rule nfl_mono) (use vb in simp)
          then show ?thesis using True A B C va by simp
        next
          case False
          from 1(4)[OF A B C False va(3) 1(8)]
          have "nfl (min_r bR - 1 + 2) (withoutRanges as (bR # bs))"
            by (rule nfl_mono) (use A in simp)
          then show ?thesis using False A B C va by simp
        qed
      next
        case C: False
        show ?thesis
        proof (cases "max_r aR > max_r bR")
          case True
          have "nfl (max_r bR + 1) (?a' # as)" using True va by simp
          from 1(5)[OF A B C True this vb(3)]
          have "nfl la (withoutRanges (?a' # as) bs)"
            by (rule nfl_mono) (use B va in simp)
          then show ?thesis using True A B C by simp
        next
          case False
          from 1(6)[OF A B C False va(3) 1(8)]
          have "nfl la (withoutRanges as (bR # bs))"
            by (rule nfl_mono) (use va in simp)
          then show ?thesis using False A B C by simp
        qed
      qed
    qed
  qed
qed simp_all

lemma withoutRanges_max:
  "list_all (\<lambda>r. max_r r \<le> m) a \<Longrightarrow> nfl lb b \<Longrightarrow> list_all (\<lambda>r. max_r r \<le> m) (withoutRanges a b)"
proof (induction a b arbitrary: lb rule: withoutRanges.induct)
  case (1 aR as bR bs)
  then show ?case by (auto simp: not_less)
qed simp_all

lemma withoutRanges_chars:
  "nfl la a \<Longrightarrow> nfl lb b \<Longrightarrow> chars (withoutRanges a b) = chars a - chars b"
proof (induction a b arbitrary: la lb rule: withoutRanges.induct)
  case (1 aR as bR bs)
  have va: "la \<le> min_r aR" "min_r aR \<le> max_r aR" "nfl (max_r aR + 2) as"
   and vb: "lb \<le> min_r bR" "min_r bR \<le> max_r bR" "nfl (max_r bR + 2) bs"
    using 1(7,8) by auto
  have as_lo: "\<And>x. x \<in> chars as \<Longrightarrow> max_r aR + 2 \<le> x" using va(3) nfl_chars_lower by blast
  have bs_lo: "\<And>x. x \<in> chars bs \<Longrightarrow> max_r bR + 2 \<le> x" using vb(3) nfl_chars_lower by blast
  let ?a' = "\<lparr>min_r = max_r bR + 1, max_r = max_r aR\<rparr>"
  show ?case
  proof (cases "max_r aR < min_r bR")
    case True
    have "chars (withoutRanges as (bR # bs)) = chars as - chars (bR # bs)"
      using 1(1)[OF True va(3) 1(8)] .
    moreover have "chars_of aR \<inter> chars (bR # bs) = {}"
      using True vb bs_lo by (fastforce simp: chars_of_def)
    ultimately show ?thesis using True by auto
  next
    case A: False
    show ?thesis
    proof (cases "max_r bR < min_r aR")
      case True
      have "chars (withoutRanges (aR # as) bs) = chars (aR # as) - chars bs"
        using 1(2)[OF A True 1(7) vb(3)] .
      moreover have "chars_of bR \<inter> chars (aR # as) = {}"
        using True va as_lo by (fastforce simp: chars_of_def)
      ultimately show ?thesis using True A by auto
    next
      case B: False
      show ?thesis
      proof (cases "min_r aR < min_r bR")
        case C: True
        show ?thesis
        proof (cases "max_r bR < max_r aR")
          case True
          have n: "nfl (max_r bR + 1) (?a' # as)" using True va by simp
          have "chars (withoutRanges (?a' # as) bs) = chars (?a' # as) - chars bs"
            using 1(3)[OF A B C True n vb(3)] .
          moreover have "chars_of \<lparr>min_r = min_r aR, max_r = min_r bR - 1\<rparr> \<union> (chars (?a' # as) - chars bs)
             = chars (aR # as) - chars (bR # bs)"
            using True A B C va vb as_lo bs_lo by (fastforce simp: chars_of_def)
          ultimately show ?thesis using True A B C by simp
        next
          case False
          have "chars (withoutRanges as (bR # bs)) = chars as - chars (bR # bs)"
            using 1(4)[OF A B C False va(3) 1(8)] .
          moreover have "chars_of \<lparr>min_r = min_r aR, max_r = min_r bR - 1\<rparr> \<union> (chars as - chars (bR # bs))
             = chars (aR # as) - chars (bR # bs)"
            using False A B C va vb as_lo bs_lo by (fastforce simp: chars_of_def)
          ultimately show ?thesis using False A B C by simp
        qed
      next
        case C: False
        show ?thesis
        proof (cases "max_r aR > max_r bR")
          case True
          have n: "nfl (max_r bR + 1) (?a' # as)" using True va by simp
          have "chars (withoutRanges (?a' # as) bs) = chars (?a' # as) - chars bs"
            using 1(5)[OF A B C True n vb(3)] .
          moreover have "chars (?a' # as) - chars bs = chars (aR # as) - chars (bR # bs)"
            using True A B C va vb as_lo bs_lo by (fastforce simp: chars_of_def)
          ultimately show ?thesis using True A B C by simp
        next
          case False
          have "chars (withoutRanges as (bR # bs)) = chars as - chars (bR # bs)"
            using 1(6)[OF A B C False va(3) 1(8)] .
          moreover have "chars as - chars (bR # bs) = chars (aR # as) - chars (bR # bs)"
            using False A B C va vb as_lo bs_lo by (fastforce simp: chars_of_def)
          ultimately show ?thesis using False A B C by simp
        qed
      qed
    qed
  qed
qed simp_all

lemma nfl_chars_empty: "nfl lo rs \<Longrightarrow> chars rs = {} \<longleftrightarrow> rs = []"
  by (cases rs) (auto simp: chars_of_def)

subsection \<open>isSupersetOf\<close>

lemma isSupersetOf_loop_chars:
  "nfl la a \<Longrightarrow> nfl lb b \<Longrightarrow> isSupersetOf_loop a b \<longleftrightarrow> chars b \<subseteq> chars a"
proof (induction a b arbitrary: la lb rule: isSupersetOf_loop.induct)
  case (1 aR as bR bs)
  have va: "la \<le> min_r aR" "min_r aR \<le> max_r aR" "nfl (max_r aR + 2) as"
   and vb: "lb \<le> min_r bR" "min_r bR \<le> max_r bR" "nfl (max_r bR + 2) bs"
    using 1(3,4) by auto
  have as_lo: "\<And>x. x \<in> chars as \<Longrightarrow> max_r aR + 2 \<le> x" using va(3) nfl_chars_lower by blast
  have bs_lo: "\<And>x. x \<in> chars bs \<Longrightarrow> max_r bR + 2 \<le> x" using vb(3) nfl_chars_lower by blast
  show ?case
  proof (cases "min_r aR \<le> min_r bR \<and> max_r aR \<ge> max_r bR")
    case True
    have "isSupersetOf_loop (aR # as) bs \<longleftrightarrow> chars bs \<subseteq> chars (aR # as)"
      using 1(1)[OF True 1(3) vb(3)] .
    moreover have "chars_of bR \<subseteq> chars_of aR" using True by (auto simp: chars_of_def)
    ultimately show ?thesis using True by auto
  next
    case A: False
    show ?thesis
    proof (cases "max_r aR < min_r bR")
      case True
      have "isSupersetOf_loop as (bR # bs) \<longleftrightarrow> chars (bR # bs) \<subseteq> chars as"
        using 1(2)[OF A True va(3) 1(4)] .
      moreover have "chars_of aR \<inter> chars (bR # bs) = {}"
        using True vb bs_lo by (fastforce simp: chars_of_def)
      ultimately show ?thesis using True A by auto
    next
      case False
      have "\<not> chars (bR # bs) \<subseteq> chars (aR # as)"
      proof (cases "min_r bR < min_r aR")
        case True
        then have "min_r bR \<in> chars (bR # bs)" "min_r bR \<notin> chars (aR # as)"
          using va vb as_lo by (fastforce simp: chars_of_def)+
        then show ?thesis by blast
      next
        case B: False
        then have "max_r aR + 1 \<in> chars (bR # bs)" "max_r aR + 1 \<notin> chars (aR # as)"
          using A False va vb as_lo by (fastforce simp: chars_of_def)+
        then show ?thesis by blast
      qed
      moreover have "\<not> isSupersetOf_loop (aR # as) (bR # bs)" using A False by auto
      ultimately show ?thesis by blast
    qed
  qed
next
  case (2 ts)
  then show ?case by simp
next
  case (3 otherItem os)
  then show ?case by (auto simp: chars_of_def)
qed

subsection \<open>uniqueness of the normal form\<close>

lemma nfl_unique:
  "nfl la a \<Longrightarrow> nfl lb b \<Longrightarrow> chars a = chars b \<Longrightarrow> a = b"
proof (induction a arbitrary: b la lb)
  case Nil
  then show ?case using nfl_chars_empty[of lb b] by simp
next
  case (Cons p as)
  from Cons.prems obtain q bs where b: "b = q # bs"
    using nfl_chars_empty[of lb b] by (cases b) (auto simp: chars_of_def)
  have va: "min_r p \<le> max_r p" "nfl (max_r p + 2) as"
   and vb: "min_r q \<le> max_r q" "nfl (max_r q + 2) bs"
    using Cons.prems b by auto
  have as_lo: "\<And>x. x \<in> chars as \<Longrightarrow> max_r p + 2 \<le> x" using va(2) nfl_chars_lower by blast
  have bs_lo: "\<And>x. x \<in> chars bs \<Longrightarrow> max_r q + 2 \<le> x" using vb(2) nfl_chars_lower by blast
  have eq: "chars_of p \<union> chars as = chars_of q \<union> chars bs" using Cons.prems b by simp
  have mn: "min_r p = min_r q"
  proof (rule ccontr)
    assume ne: "min_r p \<noteq> min_r q"
    have "min_r p \<in> chars_of q \<union> chars bs" "min_r q \<in> chars_of p \<union> chars as"
      using eq va vb by (auto simp: chars_of_def)
    then show False using ne va vb as_lo bs_lo by (fastforce simp: chars_of_def)
  qed
  have mx: "max_r p = max_r q"
  proof (rule ccontr)
    assume ne: "max_r p \<noteq> max_r q"
    show False
    proof (cases "max_r p < max_r q")
      case True
      then have "max_r p + 1 \<in> chars_of q" using mn va by (auto simp: chars_of_def)
      then have "max_r p + 1 \<in> chars_of p \<union> chars as" using eq by blast
      then show False using as_lo by (fastforce simp: chars_of_def)
    next
      case False
      then have "max_r q + 1 \<in> chars_of p" using ne mn vb by (auto simp: chars_of_def)
      then have "max_r q + 1 \<in> chars_of q \<union> chars bs" using eq by blast
      then show False using bs_lo by (fastforce simp: chars_of_def)
    qed
  qed
  have pq: "p = q" using mn mx by simp
  have "chars as = chars bs"
  proof -
    have "chars_of p \<inter> chars as = {}" using as_lo by (fastforce simp: chars_of_def)
    moreover have "chars_of p \<inter> chars bs = {}" using bs_lo pq by (fastforce simp: chars_of_def)
    ultimately show ?thesis using eq pq by blast
  qed
  then have "as = bs" using Cons.IH[OF va(2) vb(2)] by simp
  then show ?case using pq b by simp
qed

lemma equals_loop_eq: "length a = length b \<Longrightarrow> equals_loop a b \<longleftrightarrow> a = b"
proof (induction a b rule: equals_loop.induct)
  case (1 thisR ts otherR os)
  then show ?case by auto
qed auto

lemma CharSet_equals_eq: "CharSet_equals a b \<longleftrightarrow> a = b"
  using equals_loop_eq[of "ranges a" "ranges b"]
  by (cases a; cases b) (auto simp: CharSet_equals_def)

lemma compare_loop_refl: "compare_loop a a = 0"
  by (induction a) auto

lemma CharSet_compare_refl: "CharSet_compare a a = 0"
  by (simp add: CharSet_compare_def compare_loop_refl)

lemma gaps_nfl: "nfl lo (p # rest) \<Longrightarrow> nfl (max_r p + 1) (negateRanges_gaps (p # rest))"
proof (induction "p # rest" arbitrary: lo p rest rule: negateRanges_gaps.induct)
  case (1 p q rs)
  have "nfl (max_r q + 1) (negateRanges_gaps (q # rs))" using 1 by auto
  then have "nfl (min_r q - 1 + 2) (negateRanges_gaps (q # rs))"
    by (rule nfl_mono) (use 1(2) in simp)
  then show ?case using 1(2) by simp
qed simp_all

lemma gaps_bound:
  "nfl lo rs \<Longrightarrow> g \<in> set (negateRanges_gaps rs) \<Longrightarrow> \<exists>q \<in> set rs. max_r g = min_r q - 1"
proof (induction rs arbitrary: lo rule: negateRanges_gaps.induct)
  case (1 p q rs)
  then show ?case by auto
qed simp_all

lemma nfl_last_max: "nfl lo rs \<Longrightarrow> r \<in> set rs \<Longrightarrow> max_r r \<le> max_r (last rs)"
proof (induction rs arbitrary: lo)
  case (Cons a rs)
  show ?case
  proof (cases "rs = []")
    case True
    then show ?thesis using Cons.prems by simp
  next
    case False
    then have l: "last rs \<in> set rs" by simp
    have "max_r a \<le> max_r (last rs)" using Cons.prems(1) nfl_lower[OF _ l, of "max_r a + 2"] by simp
    then show ?thesis using Cons False by auto
  qed
qed simp

lemma nfl_snoc:
  "nfl lo xs \<Longrightarrow> lo \<le> min_r r \<Longrightarrow> min_r r \<le> max_r r \<Longrightarrow> (\<forall>x \<in> set xs. max_r x + 2 \<le> min_r r) \<Longrightarrow>
   nfl lo (xs @ [r])"
  by (induction xs arbitrary: lo) auto

lemma negateRanges_nfl:
  assumes "nfl 0 rs" "list_all (\<lambda>r. max_r r \<le> m) rs" "0 \<le> m"
  shows "nfl 0 (negateRanges rs m) \<and> list_all (\<lambda>r. max_r r \<le> m) (negateRanges rs m)"
proof (cases "rs = []")
  case True
  then show ?thesis using assms by (simp add: negateRanges_def)
next
  case ne: False
  let ?p = "hd rs" and ?lst = "last rs"
  let ?trail = "if max_r ?lst < m then [\<lparr>min_r = max_r ?lst + 1, max_r = m\<rparr>] else []"
  let ?body = "negateRanges_gaps rs @ ?trail"
  have lst: "?lst \<in> set rs" and hd: "?p \<in> set rs" using ne by simp_all
  have vp: "0 \<le> min_r ?p" "min_r ?p \<le> max_r ?p" using nfl_lower[OF assms(1) hd] by auto
  have g: "nfl (max_r ?p + 1) (negateRanges_gaps rs)"
    using gaps_nfl[of 0 ?p "tl rs"] assms(1) ne by simp
  have gb: "\<forall>x \<in> set (negateRanges_gaps rs). max_r x + 2 \<le> max_r ?lst + 1"
  proof
    fix x assume "x \<in> set (negateRanges_gaps rs)"
    then obtain q where q: "q \<in> set rs" "max_r x = min_r q - 1" using gaps_bound[OF assms(1)] by blast
    then have "min_r q \<le> max_r q" "max_r q \<le> max_r ?lst"
      using nfl_lower[OF assms(1)] nfl_last_max[OF assms(1)] by auto
    then show "max_r x + 2 \<le> max_r ?lst + 1" using q by simp
  qed
  have pl: "max_r ?p \<le> max_r ?lst" using nfl_last_max[OF assms(1) hd] .
  have gt: "nfl (max_r ?p + 1) ?body"
  proof (cases "max_r ?lst < m")
    case True
    then show ?thesis using g gb pl by (auto intro!: nfl_snoc)
  next
    case False
    then show ?thesis using g by simp
  qed
  have n: "negateRanges rs m =
      (if min_r ?p > 0 then [\<lparr>min_r = 0, max_r = min_r ?p - 1\<rparr>] else []) @ ?body"
    using ne by (simp add: negateRanges_def Let_def)
  have "nfl 0 (negateRanges rs m)"
  proof (cases "min_r ?p > 0")
    case True
    have "nfl (min_r ?p - 1 + 2) ?body" by (rule nfl_mono[OF gt]) (use vp in simp)
    then show ?thesis unfolding n using True by simp
  next
    case False
    have "nfl 0 ?body" by (rule nfl_mono[OF gt]) (use vp in simp)
    then show ?thesis unfolding n using False by simp
  qed
  moreover have "list_all (\<lambda>r. max_r r \<le> m) (negateRanges_gaps rs)"
    unfolding list_all_iff
  proof
    fix x assume "x \<in> set (negateRanges_gaps rs)"
    then obtain q where q: "q \<in> set rs" "max_r x = min_r q - 1" using gaps_bound[OF assms(1)] by blast
    then have "min_r q \<le> max_r q" "max_r q \<le> m"
      using nfl_lower[OF assms(1)] assms(2) by (auto simp: list_all_iff)
    then show "max_r x \<le> m" using q by simp
  qed
  moreover have "min_r ?p - 1 \<le> m" using vp pl assms(2) lst by (auto simp: list_all_iff)
  ultimately show ?thesis unfolding n by simp
qed

lemma checkRange_all_Inr:
  "checkRange_all this rs = Inr rs' \<Longrightarrow> rs' = rs \<and> list_all (valid_range (maximum this)) rs"
proof (induction rs arbitrary: rs')
  case (Cons r rs)
  then show ?case
    by (auto simp: checkRange_def valid_range_def split: sum.splits if_splits)
qed simp

lemma union_push_Inr:
  "union_push this data acc = Inr rs \<Longrightarrow> list_all (valid_range (maximum this)) acc \<Longrightarrow>
   list_all (valid_range (maximum this)) rs"
proof (induction data arbitrary: acc)
  case (Cons d data)
  then show ?case
    by (auto split: sum.splits dest!: checkRange_all_Inr)
qed simp

lemma normal_form_valid: "normal_form s \<Longrightarrow> list_all (valid_range (maximum s)) (ranges s)"
  by (simp add: normal_form_def in_bounds_def)

lemma normal_formI:
  "nfl 0 (ranges s) \<Longrightarrow> list_all (\<lambda>r. max_r r \<le> maximum s) (ranges s) \<Longrightarrow> normal_form s"
  by (simp add: normal_form_nfl)

lemma CharSet_negate_normal:
  "normal_form this \<Longrightarrow> 0 \<le> maximum this \<Longrightarrow> normal_form (CharSet_negate this)"
  using negateRanges_nfl[of "ranges this" "maximum this"]
  by (simp add: normal_form_nfl CharSet_negate_def)

lemma CharSet_union_normal:
  assumes "normal_form this" "list_all arg_normal data" "CharSet_union this data = Inr u"
  shows "normal_form u"
proof -
  have general: "normal_form u"
    if "union_push this data (ranges this) = Inr newRanges"
       "u = \<lparr>maximum = maximum this, ranges = optimizeRanges newRanges\<rparr>" for newRanges
  proof -
    have "list_all (valid_range (maximum this)) newRanges"
      using union_push_Inr[OF that(1)] normal_form_valid[OF assms(1)] by simp
    then have v: "list_all (\<lambda>r. 0 \<le> min_r r \<and> min_r r \<le> max_r r) newRanges"
      "list_all (\<lambda>r. max_r r \<le> maximum this) newRanges"
      by (auto simp: list_all_iff valid_range_def)
    have "nfl 0 (optimizeRanges newRanges)"
      "list_all (\<lambda>r. max_r r \<le> maximum this) (optimizeRanges newRanges)"
      using optimizeRanges_nfl[OF v(1)] optimizeRanges_max[OF v(2)] by simp_all
    then show ?thesis using that(2) by (simp add: normal_form_nfl)
  qed
  show ?thesis
  proof (cases "\<exists>first. data = [OfSet first]")
    case True
    then obtain first where d: "data = [OfSet first]" by blast
    then have nf: "normal_form first" using assms(2) by (simp add: arg_normal_def)
    have m: "maximum first = maximum this"
      using assms(3) d by (auto simp: CharSet_union_def checkCompatibility_def split: if_splits)
    show ?thesis
    proof (cases "length (ranges first) = 0")
      case True
      then show ?thesis using assms(1,3) d m by (simp add: CharSet_union_def checkCompatibility_def)
    next
      case False
      then have "u = \<lparr>maximum = maximum this, ranges = unionRanges (ranges this) (ranges first)\<rparr>"
        using assms(3) d m by (simp add: CharSet_union_def checkCompatibility_def)
      then show ?thesis using assms(1) nf m
        by (auto simp: normal_form_nfl intro!: unionRanges_nfl unionRanges_max)
    qed
  next
    case False
    then have "CharSet_union this data =
      (case union_push this data (ranges this) of Inl e \<Rightarrow> Inl e
       | Inr newRanges \<Rightarrow> Inr \<lparr>maximum = maximum this, ranges = optimizeRanges newRanges\<rparr>)"
      by (auto simp: CharSet_union_def split: list.splits ranges_or_set.splits)
    then show ?thesis using assms(3) general by (auto split: sum.splits)
  qed
qed

lemma CharSet_empty_normal: "normal_form (CharSet_empty m)"
  by (simp add: CharSet_empty_def normal_form_def sorted_by_min_def in_bounds_def)

lemma other_set_normal:
  assumes "arg_normal d" "other_set this d = Inr other"
  shows "normal_form other"
proof (cases d)
  case (OfSet s)
  then show ?thesis using assms by (auto simp: other_set_def arg_normal_def split: sum.splits)
next
  case (OfRanges rs)
  then have "CharSet_union (CharSet_empty (maximum this)) [OfRanges rs] = Inr other"
    using assms by (simp add: other_set_def)
  then show ?thesis using CharSet_union_normal[OF CharSet_empty_normal, of "[OfRanges rs]"]
    by (simp add: arg_normal_def)
qed

lemma CharSet_intersect_normal:
  assumes "normal_form this" "arg_normal d" "CharSet_intersect this d = Inr r"
  shows "normal_form r"
proof -
  from assms(3) obtain other where o: "other_set this d = Inr other"
    by (auto simp: CharSet_intersect_def split: sum.splits)
  have no: "normal_form other" using other_set_normal[OF assms(2) o] .
  have "nfl (max 0 0) (intersectRanges (ranges this) (ranges other))"
    using assms(1) no by (intro intersectRanges_nfl) (auto simp: normal_form_nfl)
  moreover have "list_all (\<lambda>r. max_r r \<le> maximum this) (intersectRanges (ranges this) (ranges other))"
    using assms(1) by (intro intersectRanges_max) (auto simp: normal_form_nfl)
  ultimately show ?thesis using assms(3) o CharSet_empty_normal
    by (auto simp: CharSet_intersect_def Let_def normal_form_nfl split: if_splits)
qed

lemma CharSet_without_normal:
  assumes "normal_form this" "arg_normal d" "CharSet_without this d = Inr r"
  shows "normal_form r"
proof -
  from assms(3) obtain other where o: "other_set this d = Inr other"
    by (auto simp: CharSet_without_def split: sum.splits)
  have no: "normal_form other" using other_set_normal[OF assms(2) o] .
  have "nfl 0 (withoutRanges (ranges this) (ranges other))"
    using assms(1) no by (intro withoutRanges_nfl) (auto simp: normal_form_nfl)
  moreover have "list_all (\<lambda>r. max_r r \<le> maximum this) (withoutRanges (ranges this) (ranges other))"
    using assms(1) no by (intro withoutRanges_max) (auto simp: normal_form_nfl)
  ultimately show ?thesis using assms(3) o CharSet_empty_normal
    by (auto simp: CharSet_without_def Let_def normal_form_nfl split: if_splits)
qed

lemma empty_cached_value:
  "cache_inv CharSet_empty c \<Longrightarrow>
   fst (empty_cached c m) = CharSet_empty m \<and> cache_inv CharSet_empty (snd (empty_cached c m))"
  by (auto simp: cache_inv_def empty_cached_def CharSet_empty_def Let_def split: option.splits)

lemma all_cached_value:
  "cache_inv CharSet_all c \<Longrightarrow>
   fst (all_cached c m) = CharSet_all m \<and> cache_inv CharSet_all (snd (all_cached c m))"
  by (auto simp: cache_inv_def all_cached_def CharSet_all_def Let_def split: option.splits)

lemma cache_inv_empty: "cache_inv f Map.empty"
  by (simp add: cache_inv_def)

lemma union_single_ok:
  "maximum a = maximum b \<Longrightarrow> \<exists>u. CharSet_union a [OfSet b] = Inr u"
  by (simp add: CharSet_union_def checkCompatibility_def)

lemma intersect_ok:
  "maximum a = maximum b \<Longrightarrow> \<exists>u. CharSet_intersect a (OfSet b) = Inr u"
  by (simp add: CharSet_intersect_def other_set_def checkCompatibility_def Let_def)

lemma without_ok:
  "maximum a = maximum b \<Longrightarrow> \<exists>u. CharSet_without a (OfSet b) = Inr u"
  by (simp add: CharSet_without_def other_set_def checkCompatibility_def Let_def)

section \<open>Lemmas about the graph builder and the simplifier\<close>

lemma compare_out_empty_nonempty:
  "isEmpty (snd x) \<Longrightarrow> \<not> isEmpty (snd y) \<Longrightarrow> compare_out x y = 1"
  "\<not> isEmpty (snd x) \<Longrightarrow> isEmpty (snd y) \<Longrightarrow> compare_out x y = - 1"
  "isEmpty (snd x) \<Longrightarrow> isEmpty (snd y) \<Longrightarrow> compare_out x y = 0"
  by (auto simp: compare_out_def isEmpty_def Let_def)

lemma insert_set: "set (Array_sort_insert cmp x ys) = insert x (set ys)"
  by (induction ys) auto

lemma insert_nonempties_first:
  "nonempties_first ys \<Longrightarrow> nonempties_first (Array_sort_insert compare_out x ys)"
proof (induction ys)
  case Nil
  then show ?case by simp
next
  case (Cons y ys)
  show ?case
  proof (cases "isEmpty (snd x)")
    case True
    then show ?thesis using Cons
      by (cases "isEmpty (snd y)")
         (auto simp: compare_out_empty_nonempty list_all_iff insert_set)
  next
    case False
    then show ?thesis using Cons
      by (cases "isEmpty (snd y)")
         (auto simp: compare_out_empty_nonempty list_all_iff insert_set)
  qed
qed

lemma foldl_insert_nonempties_first:
  "nonempties_first acc \<Longrightarrow>
   nonempties_first (foldl (\<lambda>sorted x. Array_sort_insert compare_out x sorted) acc xs)"
  by (induction xs arbitrary: acc) (auto intro: insert_nonempties_first)

lemma inlineAlternatives_unchanged:
  "inlineAlternatives alts = (False, alts') \<Longrightarrow> alts' = alts"
proof (induction alts arbitrary: alts' rule: inlineAlternatives.induct)
  case 1
  then show ?case by simp
next
  case (2 c rest)
  then show ?case by (auto split: option.splits prod.splits)
qed

lemma lower_first_quantifier_unchanged:
  "lower_first_quantifier alts = (False, alts') \<Longrightarrow> alts' = alts"
proof (induction alts arbitrary: alts' rule: lower_first_quantifier.induct)
  case 1
  then show ?case by simp
next
  case (2 alt rest)
  then show ?case
    by (auto split: option.splits if_splits prod.splits)
qed

lemma optimizeEmptyString_unchanged:
  "optimizeEmptyString alts = (False, alts') \<Longrightarrow> alts' = alts"
  by (auto simp: optimizeEmptyString_def Let_def split: if_splits prod.splits)

lemma factorOut_unchanged:
  "factorOutCommonPreAndSuffix alts = (False, alts') \<Longrightarrow> alts' = alts"
  by (auto simp: factorOutCommonPreAndSuffix_def Let_def split: if_splits)

lemma inlineConcat_element_unchanged:
  "inlineConcat_element e = (False, e') \<Longrightarrow> e' = e"
  by (auto simp: inlineConcat_element_def split: element.splits if_splits)

lemma inlineConcat_unchanged:
  "inlineConcat es = (False, es') \<Longrightarrow> es' = es"
proof (induction es arbitrary: es' rule: inlineConcat.induct)
  case 1
  then show ?case by simp
next
  case (2 e rest)
  then show ?case
    by (auto split: option.splits prod.splits dest: inlineConcat_element_unchanged)
qed

lemma consumeNonQuantifier_flag: "flag_callback consumeNonQuantifier"
  by (auto simp: flag_callback_def consumeNonQuantifier_def split: option.splits element.splits if_splits)

lemma consumeQuantifier_flag: "flag_callback consumeQuantifier"
  by (auto simp: flag_callback_def consumeQuantifier_def split: option.splits element.splits if_splits)

lemma filterMut_loop_flag_mono:
  "flag_callback f \<Longrightarrow> filterMut_loop f kept xs True = (r, b) \<Longrightarrow> b"
proof (induction xs arbitrary: kept)
  case Nil
  then show ?case by simp
next
  case (Cons x xs)
  obtain keep prev' s' where f: "f x (if kept = [] then None else Some (last kept)) True = (keep, prev', s')"
    by (metis prod_cases3)
  then have "s'" using Cons.prems(1) unfolding flag_callback_def by (metis (full_types))
  then show ?case using Cons f by (auto simp: Let_def)
qed

lemma filterMut_loop_unchanged:
  "flag_callback f \<Longrightarrow> filterMut_loop f kept xs s = (r, False) \<Longrightarrow> r = kept @ xs \<and> \<not> s"
proof (induction xs arbitrary: kept s)
  case Nil
  then show ?case by simp
next
  case (Cons x xs)
  let ?prev = "if kept = [] then None else Some (last kept)"
  obtain keep prev' s' where f: "f x ?prev s = (keep, prev', s')"
    by (metis prod_cases3)
  show ?case
  proof (cases keep)
    case True
    then have p: "prev' = ?prev" "s' = s" using Cons.prems(1) f unfolding flag_callback_def by metis+
    have k: "(case prev' of None \<Rightarrow> kept | Some p \<Rightarrow> butlast kept @ [p]) = kept"
      using p by (cases "kept = []") auto
    have "filterMut_loop f (kept @ [x]) xs s = (r, False)"
      using Cons.prems(2) f True p k by (simp add: Let_def)
    from Cons.IH[OF Cons.prems(1) this] show ?thesis by simp
  next
    case False
    then have "s'" using Cons.prems(1) f unfolding flag_callback_def by (metis (full_types))
    then have "\<exists>k. filterMut_loop f k xs True = (r, False)"
      using Cons.prems(2) f False by (auto simp: Let_def)
    then show ?thesis using filterMut_loop_flag_mono[OF Cons.prems(1)] by blast
  qed
qed

lemma filterMut_unchanged:
  "flag_callback f \<Longrightarrow> filterMut f xs s = (r, False) \<Longrightarrow> r = xs \<and> \<not> s"
  using filterMut_loop_unchanged[of f "[]" xs s r] by (simp add: filterMut_def)

lemma letQuantifiersConsumeNeighbors_unchanged:
  assumes "letQuantifiersConsumeNeighbors es = (False, es')"
  shows "es' = es"
proof -
  obtain es1 o1 where a: "filterMut consumeNonQuantifier es False = (es1, o1)" by (metis surj_pair)
  obtain es2 o2 where b: "filterMut consumeNonQuantifier (rev es1) o1 = (es2, o2)" by (metis surj_pair)
  obtain es3 o3 where c: "filterMut consumeQuantifier (rev es2) o2 = (es3, o3)" by (metis surj_pair)
  from assms a b c have r: "o3 = False" "es' = es3" by (simp_all add: letQuantifiersConsumeNeighbors_def)
  from filterMut_unchanged[OF consumeQuantifier_flag] c r have 3: "es3 = rev es2" "\<not> o2" by auto
  from filterMut_unchanged[OF consumeNonQuantifier_flag] b 3 have 2: "es2 = rev es1" "\<not> o1" by auto
  from filterMut_unchanged[OF consumeNonQuantifier_flag] a 2 have 1: "es1 = es" by auto
  show ?thesis using r 1 2 3 by simp
qed

lemma onNodeWithAlternatives_unchanged:
  "onNodeWithAlternatives alts = (False, alts') \<Longrightarrow> alts' = alts"
  by (auto simp: onNodeWithAlternatives_def split: prod.splits
      dest!: inlineAlternatives_unchanged optimizeEmptyString_unchanged factorOut_unchanged)

lemma onConcatenationLeave_unchanged:
  "onConcatenationLeave es = (False, es') \<Longrightarrow> es' = es"
  by (auto simp: onConcatenationLeave_def split: prod.splits
      dest!: inlineConcat_unchanged letQuantifiersConsumeNeighbors_unchanged)

lemma onQuantifierLeave_unchanged:
  "onQuantifierLeave alts mn mx = (False, q) \<Longrightarrow> q = Quantifier alts mn mx"
  by (auto simp: onQuantifierLeave_def split: prod.splits if_splits option.splits
      dest!: onNodeWithAlternatives_unchanged)

lemma optimize_nodes_unchanged:
  "optimize_element e = (False, e') \<Longrightarrow> e' = e"
  "optimize_concatenation c = (False, c') \<Longrightarrow> c' = c"
  "optimize_alternatives alts = (False, alts') \<Longrightarrow> alts' = alts"
  "optimize_elements es = (False, es') \<Longrightarrow> es' = es"
proof (induction e and c and alts and es arbitrary: e' and c' and alts' and es'
    rule: optimize_element_optimize_concatenation_optimize_alternatives_optimize_elements.induct)
  case (1 cs)
  then show ?case by simp
next
  case (2 alts)
  then show ?case
    by (auto split: prod.splits dest!: onNodeWithAlternatives_unchanged)
next
  case (3 kind negate alts)
  then show ?case
    by (auto split: prod.splits dest!: onNodeWithAlternatives_unchanged)
next
  case (4 alts mn mx)
  then show ?case
    by (auto split: prod.splits dest!: onQuantifierLeave_unchanged)
next
  case (5 es)
  then show ?case
    by (auto split: prod.splits dest!: onConcatenationLeave_unchanged)
next
  case 6
  then show ?case by simp
next
  case (7 c cs)
  then show ?case by (auto split: prod.splits)
next
  case 8
  then show ?case by simp
next
  case (9 e es)
  then show ?case by (auto split: prod.splits)
qed

lemma optimize_unchanged: "optimize e = (False, e') \<Longrightarrow> e' = e"
  by (auto simp: optimize_def split: expression.splits prod.splits
      dest!: onNodeWithAlternatives_unchanged optimize_nodes_unchanged(3))

section \<open>The factory's counter along a conversion\<close>

text \<open>
  An invariant of the depth-first search: what holds of the start and is kept by every
  step holds of the state that the search returns.
\<close>

lemma DFS_loop_invariant:
  fixes s' :: "'b"
  assumes step: "\<And>x rest vis s succs s'. I (x # rest) vis s \<Longrightarrow> x \<notin> set vis \<Longrightarrow>
      next x s = Inr (succs, s') \<Longrightarrow> I (succs @ rest) (x # vis) s'"
    and skip: "\<And>x rest vis s. I (x # rest) vis s \<Longrightarrow> x \<in> set vis \<Longrightarrow> I rest vis s"
    and run: "DFS_loop next stack visited s = Some (Inr s')"
    and start: "I stack visited s"
  shows "\<exists>vis'. I [] vis' s'"
proof -
  define Q where "Q = (\<lambda>nxt stack visited s (r :: error + 'b).
     nxt = next \<longrightarrow> (\<forall>s'. r = Inr s' \<longrightarrow> I stack visited s \<longrightarrow> (\<exists>vis'. I [] vis' s')))"
  have "Q next stack visited s (Inr s')"
  proof (rule DFS_loop.raw_induct[where P = Q, OF _ run])
    fix f nxt stack visited s r
    assume IH: "\<And>stack visited s b y. f stack visited s b = Some y \<Longrightarrow> Q stack visited s b y"
      and eq: "(case stack of [] \<Rightarrow> Some (Inr s)
          | x # rest \<Rightarrow>
              if x \<in> set visited then f nxt rest visited s
              else case nxt x s of Inl e \<Rightarrow> Some (Inl e)
                   | Inr (succs, s') \<Rightarrow> f nxt (succs @ rest) (x # visited) s') = Some r"
    show "Q nxt stack visited s r"
      unfolding Q_def
    proof (intro impI allI)
      fix s' assume n: "nxt = next" and r: "r = Inr s'" and i: "I stack visited s"
      show "\<exists>vis'. I [] vis' s'"
      proof (cases stack)
        case Nil
        then show ?thesis using eq r i by auto
      next
        case (Cons x rest)
        show ?thesis
        proof (cases "x \<in> set visited")
          case True
          then have "f nxt rest visited s = Some r" using eq Cons by simp
          from IH[OF this] show ?thesis
            unfolding Q_def using n r skip[of x rest visited s] i Cons True by blast
        next
          case False
          show ?thesis
          proof (cases "next x s")
            case (Inl e)
            then show ?thesis using eq Cons False n r by simp
          next
            case (Inr p)
            obtain succs s1 where p: "p = (succs, s1)" by (cases p)
            then have "f nxt (succs @ rest) (x # visited) s1 = Some r"
              using eq Cons False n Inr by simp
            from IH[OF this] show ?thesis
              unfolding Q_def using n r step[of x rest visited s succs s1] i Cons False Inr p by blast
          qed
        qed
      qed
    qed
  qed
  then show ?thesis using start by (simp add: Q_def)
qed

lemma bind_Inr:
  "(case m of Inl e \<Rightarrow> Inl e | Inr (x, s) \<Rightarrow> f x s) = Inr r \<Longrightarrow> \<exists>x s. m = Inr (x, s) \<and> f x s = Inr r"
  by (auto split: sum.splits)

lemma bind_sum_Some:
  "Option.bind m (\<lambda>r. case r of Inl e \<Rightarrow> Some (Inl e) | Inr x \<Rightarrow> f x) = Some (Inr y) \<Longrightarrow>
   \<exists>x. m = Some (Inr x) \<and> f x = Some (Inr y)"
  by (cases m) (auto split: sum.splits)

lemma incrementCounter_Inr:
  "incrementCounter tc = Inr tc' \<Longrightarrow>
   counter tc' = counter tc + 1 \<and> max_tc tc' = max_tc tc \<and> int (counter tc') \<le> max_tc tc'"
  by (auto simp: incrementCounter_def Let_def split: if_splits)

lemmas tc_defs = tc_concat_def tc_emptyConcat_def tc_alter_def tc_emptyAlter_def tc_expression_def
  tc_emptyExpression_def tc_char_def tc_quant_def tc_quantStar_def tc_quantPlus_def

lemma tc_factory_Inr:
  "tc_concat es tc = Inr (c, tc') \<Longrightarrow> c = Concatenation es \<and> counter tc' = counter tc + 1 \<and> max_tc tc' = max_tc tc"
  "tc_emptyConcat tc = Inr (c, tc') \<Longrightarrow> c = Concatenation [] \<and> counter tc' = counter tc + 1 \<and> max_tc tc' = max_tc tc"
  "tc_alter alts tc = Inr (a, tc') \<Longrightarrow> a = Alternation alts \<and> counter tc' = counter tc + 1 \<and> max_tc tc' = max_tc tc"
  "tc_emptyAlter tc = Inr (a, tc') \<Longrightarrow> a = Alternation [] \<and> counter tc' = counter tc + 1 \<and> max_tc tc' = max_tc tc"
  "tc_expression alts tc = Inr (x, tc') \<Longrightarrow> x = Expression alts \<and> counter tc' = counter tc + 1 \<and> max_tc tc' = max_tc tc"
  "tc_emptyExpression tc = Inr (x, tc') \<Longrightarrow> x = Expression [] \<and> counter tc' = counter tc + 1 \<and> max_tc tc' = max_tc tc"
  "tc_char cs tc = Inr (a, tc') \<Longrightarrow> a = CharacterClass cs \<and> counter tc' = counter tc + 1 \<and> max_tc tc' = max_tc tc"
  "tc_quant alts mn mx tc = Inr (a, tc') \<Longrightarrow> a = Quantifier alts mn mx \<and> counter tc' = counter tc + 1 \<and> max_tc tc' = max_tc tc"
  "tc_quantStar alts tc = Inr (a, tc') \<Longrightarrow> a = Quantifier alts 0 \<infinity> \<and> counter tc' = counter tc + 1 \<and> max_tc tc' = max_tc tc"
  "tc_quantPlus alts tc = Inr (a, tc') \<Longrightarrow> a = Quantifier alts 1 \<infinity> \<and> counter tc' = counter tc + 1 \<and> max_tc tc' = max_tc tc"
  by (auto simp: tc_defs split: sum.splits dest!: incrementCounter_Inr)

lemma copy_counts:
  "copy_element e tc = Inr (e', tc') \<Longrightarrow>
     e' = e \<and> max_tc tc' = max_tc tc \<and> counter tc' = counter tc + count_nodes_element e"
  "copy_concatenation c tc = Inr (c', tc') \<Longrightarrow>
     c' = c \<and> max_tc tc' = max_tc tc \<and> counter tc' = counter tc + count_nodes_concatenation c"
  "copy_alternatives alts tc = Inr (alts', tc') \<Longrightarrow>
     alts' = alts \<and> max_tc tc' = max_tc tc \<and> counter tc' = counter tc + count_nodes_alternatives alts"
  "copy_elements es tc = Inr (es', tc') \<Longrightarrow>
     es' = es \<and> max_tc tc' = max_tc tc \<and> counter tc' = counter tc + count_nodes_elements es"
proof (induction e tc and c tc and alts tc and es tc arbitrary: e' tc' and c' tc' and alts' tc' and es' tc'
    rule: copy_element_copy_concatenation_copy_alternatives_copy_elements.induct)
  case (1 alts tc)
  from 1(2) obtain a t where "copy_alternatives alts tc = Inr (a, t)" "tc_alter a t = Inr (e', tc')"
    by (auto dest!: bind_Inr)
  then show ?case using 1(1) tc_factory_Inr(3) by fastforce
next
  case (2 cs tc)
  then show ?case using tc_factory_Inr(7) by fastforce
next
  case (3 alts mn mx tc)
  from 3(2) obtain a t where "copy_alternatives alts tc = Inr (a, t)" "tc_quant a mn mx t = Inr (e', tc')"
    by (auto dest!: bind_Inr)
  then show ?case using 3(1) tc_factory_Inr(8) by fastforce
next
  case (4 kind negate alts tc)
  then show ?case by simp
next
  case (5 es tc)
  from 5(2) obtain a t where "copy_elements es tc = Inr (a, t)" "tc_concat a t = Inr (c', tc')"
    by (auto dest!: bind_Inr)
  then show ?case using 5(1) tc_factory_Inr(1) by fastforce
next
  case (6 tc)
  then show ?case by simp
next
  case (7 c cs tc)
  from 7(3) obtain c1 t1 where a: "copy_concatenation c tc = Inr (c1, t1)"
    and "(case copy_alternatives cs t1 of Inl e \<Rightarrow> Inl e | Inr (cs', tc'') \<Rightarrow> Inr (c1 # cs', tc'')) = Inr (alts', tc')"
    by (auto dest!: bind_Inr)
  then obtain cs1 t2 where b: "copy_alternatives cs t1 = Inr (cs1, t2)" "alts' = c1 # cs1" "tc' = t2"
    by (auto dest!: bind_Inr)
  show ?case using 7(1)[OF a] 7(2)[OF a refl b(1)] b by simp
next
  case (8 tc)
  then show ?case by simp
next
  case (9 x xs tc)
  from 9(3) obtain x1 t1 where a: "copy_element x tc = Inr (x1, t1)"
    and "(case copy_elements xs t1 of Inl e \<Rightarrow> Inl e | Inr (xs', tc'') \<Rightarrow> Inr (x1 # xs', tc'')) = Inr (es', tc')"
    by (auto dest!: bind_Inr)
  then obtain xs1 t2 where b: "copy_elements xs t1 = Inr (xs1, t2)" "es' = x1 # xs1" "tc' = t2"
    by (auto dest!: bind_Inr)
  show ?case using 9(1)[OF a] 9(2)[OF a refl b(1)] b by simp
qed

lemma tc_copy_le: "tc_copy t tc = Inr (t', tc') \<Longrightarrow> t' = t \<and> (max_tc tc' = max_tc tc \<and> counter tc \<le> counter tc')"
  by (auto simp: tc_copy_def split: transition.splits sum.splits prod.splits dest!: copy_counts)

lemma concat_t_le: "concat_t a b tc = Inr (t, tc') \<Longrightarrow> (max_tc tc' = max_tc tc \<and> counter tc \<le> counter tc')"
  by (auto simp: concat_t_def split: transition.splits concatenation.splits if_splits sum.splits prod.splits
      dest!: tc_factory_Inr)

lemma asConcatenation_le: "asConcatenation a tc = Inr (c, tc') \<Longrightarrow> (max_tc tc' = max_tc tc \<and> counter tc \<le> counter tc')"
  by (auto simp: asConcatenation_def split: transition.splits dest!: tc_factory_Inr)

lemma unionAlternationAndCharClass_le:
  "unionAlternationAndCharClass alts cs tc = Inr (alts', tc') \<Longrightarrow> (max_tc tc' = max_tc tc \<and> counter tc \<le> counter tc')"
  by (auto simp: unionAlternationAndCharClass_def split: sum.splits option.splits prod.splits
      dest!: tc_factory_Inr)

lemma union_alternatives_le:
  "union_alternatives a b tc = Inr (a', tc') \<Longrightarrow> (max_tc tc' = max_tc tc \<and> counter tc \<le> counter tc')"
proof (induction a b tc arbitrary: a' tc' rule: union_alternatives.induct)
  case (1 a tc)
  then show ?case by simp
next
  case (2 a alt rest tc)
  then show ?case
    by (fastforce split: option.splits sum.splits prod.splits
        dest!: unionAlternationAndCharClass_le)
qed

lemma union_t_le: "union_t a b tc = Inr (t, tc') \<Longrightarrow> (max_tc tc' = max_tc tc \<and> counter tc \<le> counter tc')"
  by (auto simp: union_t_def split: option.splits if_splits sum.splits prod.splits
      dest!: union_alternatives_le unionAlternationAndCharClass_le asConcatenation_le tc_factory_Inr
     )

lemma quantified_le:
  "quantified tc_quantStar alts tc = Inr (t, tc') \<Longrightarrow> (max_tc tc' = max_tc tc \<and> counter tc \<le> counter tc')"
  "quantified tc_quantPlus alts tc = Inr (t, tc') \<Longrightarrow> (max_tc tc' = max_tc tc \<and> counter tc \<le> counter tc')"
  "quantified_single tc_quantStar a tc = Inr (t, tc') \<Longrightarrow> (max_tc tc' = max_tc tc \<and> counter tc \<le> counter tc')"
  "quantified_single tc_quantPlus a tc = Inr (t, tc') \<Longrightarrow> (max_tc tc' = max_tc tc \<and> counter tc \<le> counter tc')"
  by (auto simp: quantified_def quantified_single_def split: sum.splits prod.splits
      dest!: tc_factory_Inr asConcatenation_le)

lemma star_t_le: "star_t a tc = Inr (t, tc') \<Longrightarrow> (max_tc tc' = max_tc tc \<and> counter tc \<le> counter tc')"
  by (auto simp: star_t_def split: transition.splits element.splits concatenation.splits if_splits
      sum.splits prod.splits dest!: quantified_le tc_factory_Inr)

lemma plus_t_le: "plus_t a tc = Inr (t, tc') \<Longrightarrow> (max_tc tc' = max_tc tc \<and> counter tc \<le> counter tc')"
  by (auto simp: plus_t_def split: transition.splits element.splits concatenation.splits if_splits
      sum.splits prod.splits dest!: quantified_le tc_factory_Inr)

lemma linkWithUnion_le: "linkWithUnion from to t st = Inr st' \<Longrightarrow> (max_tc (tc_e st') = max_tc (tc_e st) \<and> counter (tc_e st) \<le> counter (tc_e st'))"
  by (auto simp: linkWithUnion_def split: prod.splits option.splits sum.splits dest!: union_t_le)

lemma star_then_concat_le: "star_then_concat r t tc = Inr (x, tc') \<Longrightarrow> (max_tc tc' = max_tc tc \<and> counter tc \<le> counter tc')"
  by (auto simp: star_then_concat_def split: sum.splits prod.splits
      dest!: star_t_le concat_t_le)

lemma concat_then_star_le: "concat_then_star t r tc = Inr (x, tc') \<Longrightarrow> (max_tc tc' = max_tc tc \<and> counter tc \<le> counter tc')"
  by (auto simp: concat_then_star_def split: sum.splits prod.splits
      dest!: star_t_le concat_t_le)

lemma relink_with_le:
  "relink_with from to build nl st = Inr st' \<Longrightarrow>
   (\<And>tc x tc'. build tc = Inr (x, tc') \<Longrightarrow> (max_tc tc' = max_tc tc \<and> counter tc \<le> counter tc')) \<Longrightarrow> (max_tc (tc_e st') = max_tc (tc_e st) \<and> counter (tc_e st) \<le> counter (tc_e st'))"
  by (auto simp: relink_with_def split: sum.splits prod.splits)

lemma removeTrivialReflexiveTransition_le:
  "removeTrivialReflexiveTransition state st = Inr st' \<Longrightarrow> (max_tc (tc_e st') = max_tc (tc_e st) \<and> counter (tc_e st) \<le> counter (tc_e st'))"
  unfolding removeTrivialReflexiveTransition_def Let_def
  by (auto split: if_splits prod.splits option.splits
      dest!: relink_with_le dest: plus_t_le star_then_concat_le concat_then_star_le)



lemma removeTrivialConcat_le:
  "removeTrivialConcat state st = Inr (r, st') \<Longrightarrow>
   max_tc (tc_e st') = max_tc (tc_e st) \<and> counter (tc_e st) \<le> counter (tc_e st')"
  unfolding removeTrivialConcat_def Let_def
  by (auto split: if_splits prod.splits option.splits sum.splits
      dest!: linkWithUnion_le concat_t_le)

lemma trivialOperations_forEach_le:
  "trivialOperations_forEach toProcess new st = Inr (new', st') \<Longrightarrow>
   max_tc (tc_e st') = max_tc (tc_e st) \<and> counter (tc_e st) \<le> counter (tc_e st')"
proof (induction toProcess arbitrary: new st new' st')
  case Nil
  then show ?case by simp
next
  case (Cons state rest)
  show ?case
  proof (cases "state \<notin> set (remainingStates st)")
    case True
    then show ?thesis using Cons.IH[of new st new' st'] Cons.prems by simp
  next
    case False
    from Cons.prems False obtain st1 where a: "removeTrivialReflexiveTransition state st = Inr st1"
      by (auto split: sum.splits)
    from Cons.prems False a obtain affected st2 where b: "removeTrivialConcat state st1 = Inr (affected, st2)"
      by (auto split: sum.splits)
    from Cons.prems False a b have c: "trivialOperations_forEach rest
        (case affected of None \<Rightarrow> new | Some ss \<Rightarrow> foldl (\<lambda>s x. Set_add x s) new ss) st2
        = Inr (new', st')" by simp
    from Cons.IH[OF c] removeTrivialReflexiveTransition_le[OF a] removeTrivialConcat_le[OF b]
    show ?thesis by auto
  qed
qed

lemma trivialOperations_le:
  assumes "trivialOperations toProcess st = Some (Inr st')"
  shows "max_tc (tc_e st') = max_tc (tc_e st) \<and> counter (tc_e st) \<le> counter (tc_e st')"
proof -
  define Q where "Q = (\<lambda>(toProcess :: nat list) (st :: elim_state) (r :: error + elim_state).
     \<forall>st'. r = Inr st' \<longrightarrow> max_tc (tc_e st') = max_tc (tc_e st) \<and> counter (tc_e st) \<le> counter (tc_e st'))"
  have "Q toProcess st (Inr st')"
  proof (rule trivialOperations.raw_induct[where P = Q, OF _ assms])
    fix f toProcess st r
    assume IH: "\<And>tp s y. f tp s = Some y \<Longrightarrow> Q tp s y"
      and eq: "(if 0 < length toProcess
          then case trivialOperations_forEach toProcess [] st of
               Inl e \<Rightarrow> Some (Inl e)
               | Inr (newToProcess, st') \<Rightarrow> f newToProcess st'
          else Some (Inr st)) = Some r"
    show "Q toProcess st r"
    proof (cases "0 < length toProcess")
      case False
      then show ?thesis using eq by (auto simp: Q_def)
    next
      case True
      show ?thesis
      proof (cases "trivialOperations_forEach toProcess [] st")
        case (Inl e)
        then show ?thesis using eq True by (auto simp: Q_def)
      next
        case (Inr p)
        obtain new st1 where p: "p = (new, st1)" by (cases p)
        then have "f new st1 = Some r" using eq True Inr by simp
        from IH[OF this] trivialOperations_forEach_le[OF Inr[unfolded p]]
        show ?thesis by (auto simp: Q_def)
      qed
    qed
  qed
  then show ?thesis by (simp add: Q_def)
qed

lemma new_transition_le:
  "new_transition i r o' tc = Inr (t, tc') \<Longrightarrow> max_tc tc' = max_tc tc \<and> counter tc \<le> counter tc'"
  unfolding new_transition_def
  by (auto split: sum.splits prod.splits option.splits dest!: tc_copy_le concat_t_le)

lemma removeState_out_le:
  "removeState_out i refStar outs st = Inr st' \<Longrightarrow>
   max_tc (tc_e st') = max_tc (tc_e st) \<and> counter (tc_e st) \<le> counter (tc_e st')"
proof (induction i refStar outs st arbitrary: st' rule: removeState_out.induct)
  case (1 i refStar st)
  then show ?case by simp
next
  case (2 i refStar outState outTrans outs st)
  from 2(2) obtain t tc' where a: "new_transition (snd i) refStar outTrans (tc_e st) = Inr (t, tc')"
    by (auto split: sum.splits)
  from 2(2) a obtain st1 where b: "linkWithUnion (fst i) outState t (st\<lparr>tc_e := tc'\<rparr>) = Inr st1"
    by (auto split: sum.splits)
  from 2(2) a b have c: "removeState_out i refStar outs st1 = Inr st'" by simp
  from 2(1)[OF a _ b c] new_transition_le[OF a] linkWithUnion_le[OF b] show ?case by auto
qed

lemma removeState_in_le:
  "removeState_in ins refStar outs st = Inr st' \<Longrightarrow>
   max_tc (tc_e st') = max_tc (tc_e st) \<and> counter (tc_e st) \<le> counter (tc_e st')"
proof (induction ins refStar outs st arbitrary: st' rule: removeState_in.induct)
  case (1 refStar outs st)
  then show ?case by simp
next
  case (2 i ins refStar outs st)
  from 2(2) obtain st1 where a: "removeState_out i refStar outs st = Inr st1"
    by (auto split: sum.splits)
  from 2(2) a have c: "removeState_in ins refStar outs st1 = Inr st'" by simp
  from 2(1)[OF a c] removeState_out_le[OF a] show ?case by auto
qed

lemma removeState_le:
  "removeState state st = Inr (affected, st') \<Longrightarrow>
   max_tc (tc_e st') = max_tc (tc_e st) \<and> counter (tc_e st) \<le> counter (tc_e st')"
  unfolding removeState_def Let_def
  by (auto split: prod.splits option.splits sum.splits dest!: removeState_in_le star_t_le)

lemma eliminate_loop_le:
  assumes "eliminate_loop st = Some (Inr st')"
  shows "max_tc (tc_e st') = max_tc (tc_e st) \<and> counter (tc_e st) \<le> counter (tc_e st')"
proof -
  define Q where "Q = (\<lambda>(st :: elim_state) (r :: error + elim_state).
     \<forall>st'. r = Inr st' \<longrightarrow> max_tc (tc_e st') = max_tc (tc_e st) \<and> counter (tc_e st) \<le> counter (tc_e st'))"
  have "Q st (Inr st')"
  proof (rule eliminate_loop.raw_induct[where P = Q, OF _ assms])
    fix f st r
    assume IH: "\<And>s y. f s = Some y \<Longrightarrow> Q s y"
      and eq: "(if 0 < length (remainingStates st)
          then case minOf (remainingStates st) (cost (nodeList st)) of
               None \<Rightarrow> Some (Inl TypeError)
               | Some pickedState \<Rightarrow>
                   case removeState pickedState st of Inl e \<Rightarrow> Some (Inl e)
                   | Inr (affected, st1) \<Rightarrow>
                       Option.bind (trivialOperations affected st1)
                        (\<lambda>r. case r of Inl e \<Rightarrow> Some (Inl e) | Inr st2 \<Rightarrow> f st2)
          else Some (Inr st)) = Some r"
    show "Q st r"
      unfolding Q_def
    proof (intro allI impI)
      fix st' assume r: "r = Inr st'"
      show "max_tc (tc_e st') = max_tc (tc_e st) \<and> counter (tc_e st) \<le> counter (tc_e st')"
      proof (cases "0 < length (remainingStates st)")
        case False
        then show ?thesis using eq r by auto
      next
        case True
        from eq True r obtain picked where m: "minOf (remainingStates st) (cost (nodeList st)) = Some picked"
          by (cases "minOf (remainingStates st) (cost (nodeList st))") auto
        from eq True r m obtain p where a0: "removeState picked st = Inr p"
          by (cases "removeState picked st") auto
        obtain affected st1 where p: "p = (affected, st1)" by (cases p)
        note a = a0[unfolded p]
        from eq True r m a obtain r2 where b0: "trivialOperations affected st1 = Some r2"
          by (auto simp: bind_eq_Some_conv)
        from eq True r m a b0 obtain st2 where r2: "r2 = Inr st2"
          by (cases r2) auto
        note b = b0[unfolded r2]
        from eq True r m a b have c: "f st2 = Some (Inr st')" by simp
        from IH[OF c] removeState_le[OF a] trivialOperations_le[OF b] show ?thesis
          by (auto simp: Q_def)
      qed
    qed
  qed
  then show ?thesis by (simp add: Q_def)
qed

lemma eliminateStates_le:
  assumes "eliminateStates nl tc0 = Some (Inr st')"
  shows "max_tc (tc_e st') = max_tc tc0 \<and> counter tc0 \<le> counter (tc_e st')"
proof -
  from assms obtain final where f: "firstOf (finals nl) = Some final"
    by (cases "firstOf (finals nl)") (auto simp: eliminateStates_def)
  from assms f obtain r where d: "DFS (initial nl) (remaining_next nl final) [] = Some r"
    by (auto simp: eliminateStates_def bind_eq_Some_conv)
  from assms f d obtain remaining where r: "r = Inr remaining"
    by (cases r) (auto simp: eliminateStates_def)
  from assms f d r obtain r' where
    b: "trivialOperations remaining \<lparr>nodeList = nl, tc_e = tc0, remainingStates = remaining\<rparr> = Some r'"
    by (auto simp: eliminateStates_def bind_eq_Some_conv)
  from assms f d r b obtain st1 where r': "r' = Inr st1"
    by (cases r') (auto simp: eliminateStates_def)
  from assms f d r b r' have c: "eliminate_loop st1 = Some (Inr st')"
    by (auto simp: eliminateStates_def)
  from trivialOperations_le[OF b[unfolded r']] eliminate_loop_le[OF c] show ?thesis by simp
qed


lemma translate_tc: "translate n st = (v, st') \<Longrightarrow> tc_b st' = tc_b st"
  by (auto simp: translate_def split: option.splits prod.splits)

lemma link_out_le:
  "link_out n out st = Inr st' \<Longrightarrow>
   max_tc (tc_b st') = max_tc (tc_b st) \<and> counter (tc_b st) \<le> counter (tc_b st')"
proof (induction out arbitrary: st st')
  case Nil
  then show ?case by simp
next
  case (Cons p out)
  obtain outNode charSet where p: "p = (outNode, charSet)" by (cases p)
  obtain frm st1 where a: "translate n st = (frm, st1)" by (cases "translate n st")
  obtain to st2 where b: "translate outNode st1 = (to, st2)" by (cases "translate outNode st1")
  from Cons.prems p a b obtain t tc' where c: "tc_char charSet (tc_b st2) = Inr (t, tc')"
    by (auto split: sum.splits)
  from Cons.prems p a b c obtain nl where d: "linkNodes frm to (Elem t) (nodeList_b st2) = Inr nl"
    by (auto split: sum.splits)
  from Cons.prems p a b c d have e: "link_out n out (st2\<lparr>nodeList_b := nl, tc_b := tc'\<rparr>) = Inr st'"
    by simp
  from Cons.IH[OF e] translate_tc[OF a] translate_tc[OF b] tc_factory_Inr(7)[OF c]
  show ?case by simp
qed

lemma createNodeList_next_le:
  "createNodeList_next iter n st = Inr (succs, st') \<Longrightarrow>
   max_tc (tc_b st') = max_tc (tc_b st) \<and> counter (tc_b st) \<le> counter (tc_b st')"
  unfolding createNodeList_next_def Let_def
  by (auto split: sum.splits if_splits prod.splits dest!: link_out_le translate_tc)

lemma link_finals_le:
  "link_finals ns tempFinal nl tc = Inr (nl', tc') \<Longrightarrow>
   max_tc tc' = max_tc tc \<and> counter tc \<le> counter tc'"
proof (induction ns arbitrary: nl tc)
  case Nil
  then show ?case by simp
next
  case (Cons n ns)
  from Cons.prems obtain eps tc1 where a: "tc_emptyConcat tc = Inr (eps, tc1)"
    by (auto split: sum.splits)
  from Cons.prems a obtain nl1 where b: "linkNodes n tempFinal (Concat eps) nl = Inr nl1"
    by (auto split: sum.splits)
  from Cons.prems a b have c: "link_finals ns tempFinal nl1 tc1 = Inr (nl', tc')" by simp
  from Cons.IH[OF c] tc_factory_Inr(2)[OF a] show ?case by simp
qed

lemma createNodeList_finish_le:
  assumes "createNodeList_finish st = Some (Inr (r, tc'))"
  shows "max_tc tc' = max_tc (tc_b st) \<and> counter (tc_b st) \<le> counter tc'"
proof (cases "length (finals (nodeList_b st)) = 0")
  case True
  then show ?thesis using assms by (simp add: createNodeList_finish_def)
next
  case False
  obtain tempFinal nl1 where a: "createNode (nodeList_b st) = (tempFinal, nl1)"
    by (cases "createNode (nodeList_b st)")
  from assms False a obtain nl2 tc2 where b: "link_finals (finals nl1) tempFinal nl1 (tc_b st) = Inr (nl2, tc2)"
    by (auto simp: createNodeList_finish_def Let_def split: sum.splits)
  from assms False a b have "tc' = tc2"
    by (auto simp: createNodeList_finish_def Let_def dest!: bind_sum_Some)
  then show ?thesis using link_finals_le[OF b] by simp
qed

lemma createNodeList_le:
  assumes "createNodeList iter tc = Some (Inr (r, tc'))"
  shows "max_tc tc' = max_tc tc \<and> counter tc \<le> counter tc'"
proof -
  obtain tempInitial nl where a: "createNode NodeList_new = (tempInitial, nl)"
    by (cases "createNode NodeList_new")
  from assms a obtain eps tc1 where b: "tc_emptyConcat tc = Inr (eps, tc1)"
    by (auto simp: createNodeList_def split: sum.splits)
  from assms a b obtain nl' where c: "linkNodes (initial nl) tempInitial (Concat eps) nl = Inr nl'"
    by (auto simp: createNodeList_def split: sum.splits)
  from assms a b c obtain r1 where d: "DFS (initial_fa iter) (createNodeList_next iter)
        \<lparr>nodeList_b = nl', cache_b = [(initial_fa iter, tempInitial)], tc_b = tc1\<rparr> = Some r1"
    by (auto simp: createNodeList_def bind_eq_Some_conv)
  from assms a b c d obtain st where r1: "r1 = Inr st"
    by (cases r1) (auto simp: createNodeList_def)
  from assms a b c d r1 have e: "createNodeList_finish st = Some (Inr (r, tc'))"
    by (auto simp: createNodeList_def)
  have "\<exists>vis'. (\<lambda>(stack :: 'a list) (vis :: 'a list) s.
          max_tc (tc_b s) = max_tc tc \<and> counter tc \<le> counter (tc_b s)) [] vis' st"
  proof (rule DFS_loop_invariant[OF _ _ d[unfolded r1 DFS_def]])
    fix x rest visited s succs s'
    assume "max_tc (tc_b s) = max_tc tc \<and> counter tc \<le> counter (tc_b s)"
      and "createNodeList_next iter x s = Inr (succs, s')"
    then show "max_tc (tc_b s') = max_tc tc \<and> counter tc \<le> counter (tc_b s')"
      using createNodeList_next_le by fastforce
  next
    show "max_tc (tc_b \<lparr>nodeList_b = nl', cache_b = [(initial_fa iter, tempInitial)], tc_b = tc1\<rparr>) = max_tc tc \<and>
      counter tc \<le> counter (tc_b \<lparr>nodeList_b = nl', cache_b = [(initial_fa iter, tempInitial)], tc_b = tc1\<rparr>)"
      using tc_factory_Inr(2)[OF b] by simp
  qed simp
  then show ?thesis using createNodeList_finish_le[OF e] by simp
qed

lemma stateElimination_counter:
  assumes "stateElimination iter m = Some (Inr (E, tc'))"
  shows "max_tc tc' = m \<and> int (counter tc') \<le> m"
proof -
  from assms obtain r where a: "createNodeList iter (TransitionCreator_new m) = Some r"
    by (auto simp: stateElimination_def bind_eq_Some_conv)
  from assms a obtain nlo tc1 where r: "r = Inr (nlo, tc1)"
    by (cases r) (auto simp: stateElimination_def)
  have m1: "max_tc tc1 = m" using createNodeList_le[OF a[unfolded r]]
    by (simp add: TransitionCreator_new_def)
  have fin: "\<And>alts tc. max_tc tc = m \<Longrightarrow> tc_expression alts tc = Inr (E, tc') \<Longrightarrow> ?thesis"
    by (auto simp: tc_expression_def split: sum.splits dest!: incrementCounter_Inr)
  show ?thesis
  proof (cases nlo)
    case None
    with assms a r have "tc_emptyExpression tc1 = Inr (E, tc')"
      by (simp add: stateElimination_def)
    then show ?thesis using m1
      by (auto simp: tc_emptyExpression_def split: sum.splits dest!: incrementCounter_Inr)
  next
    case (Some nl)
    from assms a r Some obtain r2 where b: "eliminateStates nl tc1 = Some r2"
      by (auto simp: stateElimination_def bind_eq_Some_conv)
    from assms a r Some b obtain st where r2: "r2 = Inr st"
      by (cases r2) (auto simp: stateElimination_def)
    have m2: "max_tc (tc_e st) = m" using eliminateStates_le[OF b[unfolded r2]] m1 by simp
    from assms a r Some b r2 obtain finalState where f: "firstOf (finals (nodeList st)) = Some finalState"
      by (cases "firstOf (finals (nodeList st))") (auto simp: stateElimination_def)
    from assms a r Some b r2 f obtain t where
      g: "Map_get (initial (nodeList st)) (node_in (nodeList st) finalState) = Some t"
      by (cases "Map_get (initial (nodeList st)) (node_in (nodeList st) finalState)")
         (auto simp: stateElimination_def Let_def split: if_splits)
    from assms a r Some b r2 f g have h:
      "(case t of
          Elem (Alternation alts) \<Rightarrow> Some (tc_expression alts (tc_e st))
        | Concat c \<Rightarrow> Some (tc_expression [c] (tc_e st))
        | Elem e \<Rightarrow> (case tc_concat [e] (tc_e st) of
                       Inl err \<Rightarrow> Some (Inl err)
                     | Inr (c, tc') \<Rightarrow> Some (tc_expression [c] tc'))) = Some (Inr (E, tc'))"
      by (auto simp: stateElimination_def Let_def split: if_splits)
    show ?thesis
    proof (cases t)
      case (Concat c)
      then show ?thesis using h fin[OF m2] by simp
    next
      case (Elem e)
      show ?thesis
      proof (cases "\<exists>alts. e = Alternation alts")
        case True
        then show ?thesis using h Elem fin[OF m2] by auto
      next
        case False
        with h Elem obtain c tc2 where k: "tc_concat [e] (tc_e st) = Inr (c, tc2)"
          and l: "tc_expression [c] tc2 = Inr (E, tc')"
          by (cases e) (auto split: sum.splits)
        from tc_factory_Inr(1)[OF k] m2 have "max_tc tc2 = m" by simp
        from fin[OF this l] show ?thesis .
      qed
    qed
  qed
qed

lemma faToRegex_stateElimination:
  assumes "faToRegex iter options = Some (Inr E)"
  shows "\<exists>E0 tc'. stateElimination iter (maxAstNodes_of options) = Some (Inr (E0, tc'))"
proof -
  from assms obtain r where a: "stateElimination iter (maxAstNodes_of options) = Some r"
    by (auto simp: faToRegex_def maxAstNodes_of_def Let_def bind_eq_Some_conv)
  from assms a show ?thesis
    by (cases r) (auto simp: faToRegex_def maxAstNodes_of_def Let_def)
qed

lemma factory_counted:
  "tc_concat es tc = counted tc 1 (Concatenation es)"
  "tc_emptyConcat tc = counted tc 1 (Concatenation [])"
  "tc_alter alts tc = counted tc 1 (Alternation alts)"
  "tc_emptyAlter tc = counted tc 1 (Alternation [])"
  "tc_expression alts tc = counted tc 1 (Expression alts)"
  "tc_emptyExpression tc = counted tc 1 (Expression [])"
  "tc_char cs tc = counted tc 1 (CharacterClass cs)"
  "tc_quant alts mn mx tc = counted tc 1 (Quantifier alts mn mx)"
  "tc_quantStar alts tc = counted tc 1 (Quantifier alts 0 \<infinity>)"
  "tc_quantPlus alts tc = counted tc 1 (Quantifier alts 1 \<infinity>)"
  by (simp_all add: tc_defs incrementCounter_def Let_def counted_def)

lemma copy_exact:
  "assertion_free_element e \<Longrightarrow> copy_element e tc = counted tc (count_nodes_element e) e"
  "assertion_free_concatenation c \<Longrightarrow> copy_concatenation c tc = counted tc (count_nodes_concatenation c) c"
  "assertion_free_alternatives alts \<Longrightarrow> copy_alternatives alts tc =
     (if alts = [] then Inr ([], tc) else counted tc (count_nodes_alternatives alts) alts)"
  "assertion_free_elements es \<Longrightarrow> copy_elements es tc =
     (if es = [] then Inr ([], tc) else counted tc (count_nodes_elements es) es)"
proof (induction e tc and c tc and alts tc and es tc
    rule: copy_element_copy_concatenation_copy_alternatives_copy_elements.induct)
  case (1 alts tc)
  then show ?case by (auto simp: factory_counted counted_def)
next
  case (2 cs tc)
  then show ?case by (simp add: factory_counted)
next
  case (3 alts mn mx tc)
  then show ?case by (auto simp: factory_counted counted_def)
next
  case (4 kind negate alts tc)
  then show ?case by simp
next
  case (5 es tc)
  then show ?case by (auto simp: factory_counted counted_def)
next
  case (6 tc)
  then show ?case by simp
next
  case (7 c cs tc)
  have a: "copy_concatenation c tc = counted tc (count_nodes_concatenation c) c"
    using 7 by simp
  show ?case
  proof (cases "int (counter tc + count_nodes_concatenation c) > max_tc tc")
    case True
    then show ?thesis using a by (simp add: counted_def)
  next
    case False
    then have b: "copy_concatenation c tc = Inr (c, tc\<lparr>counter := counter tc + count_nodes_concatenation c\<rparr>)"
      using a by (simp add: counted_def)
    from 7(2)[OF b refl] 7(3) have
      "copy_alternatives cs (tc\<lparr>counter := counter tc + count_nodes_concatenation c\<rparr>) =
        (if cs = [] then Inr ([], tc\<lparr>counter := counter tc + count_nodes_concatenation c\<rparr>)
         else counted (tc\<lparr>counter := counter tc + count_nodes_concatenation c\<rparr>) (count_nodes_alternatives cs) cs)"
      by simp
    then show ?thesis using b False by (auto simp: counted_def add.assoc)
  qed
next
  case (8 tc)
  then show ?case by simp
next
  case (9 x xs tc)
  have a: "copy_element x tc = counted tc (count_nodes_element x) x"
    using 9 by simp
  show ?case
  proof (cases "int (counter tc + count_nodes_element x) > max_tc tc")
    case True
    then show ?thesis using a by (simp add: counted_def)
  next
    case False
    then have b: "copy_element x tc = Inr (x, tc\<lparr>counter := counter tc + count_nodes_element x\<rparr>)"
      using a by (simp add: counted_def)
    from 9(2)[OF b refl] 9(3) have
      "copy_elements xs (tc\<lparr>counter := counter tc + count_nodes_element x\<rparr>) =
        (if xs = [] then Inr ([], tc\<lparr>counter := counter tc + count_nodes_element x\<rparr>)
         else counted (tc\<lparr>counter := counter tc + count_nodes_element x\<rparr>) (count_nodes_elements xs) xs)"
      by simp
    then show ?thesis using b False by (auto simp: counted_def add.assoc)
  qed
qed

lemma tc_copy_exact:
  "assertion_free t \<Longrightarrow> tc_copy t tc = counted tc (count_nodes_transition t) t"
  by (cases t)
     (auto simp: tc_copy_def assertion_free_def count_nodes_transition_def copy_exact counted_def)


lemma createNodeList_lt:
  assumes "createNodeList iter tc = Some (Inr (r, tc'))"
  shows "counter tc < counter tc'"
proof -
  obtain tempInitial nl where a: "createNode NodeList_new = (tempInitial, nl)"
    by (cases "createNode NodeList_new")
  from assms a obtain eps tc1 where b: "tc_emptyConcat tc = Inr (eps, tc1)"
    by (auto simp: createNodeList_def split: sum.splits)
  from assms a b obtain nl' where c: "linkNodes (initial nl) tempInitial (Concat eps) nl = Inr nl'"
    by (auto simp: createNodeList_def split: sum.splits)
  from assms a b c obtain r1 where d: "DFS (initial_fa iter) (createNodeList_next iter)
        \<lparr>nodeList_b = nl', cache_b = [(initial_fa iter, tempInitial)], tc_b = tc1\<rparr> = Some r1"
    by (auto simp: createNodeList_def bind_eq_Some_conv)
  from assms a b c d obtain st where r1: "r1 = Inr st"
    by (cases r1) (auto simp: createNodeList_def)
  from assms a b c d r1 have e: "createNodeList_finish st = Some (Inr (r, tc'))"
    by (auto simp: createNodeList_def)
  have "\<exists>vis'. (\<lambda>(stack :: 'a list) (vis :: 'a list) s. counter tc < counter (tc_b s)) [] vis' st"
  proof (rule DFS_loop_invariant[OF _ _ d[unfolded r1 DFS_def]])
    fix x rest visited s succs s'
    assume "counter tc < counter (tc_b s)"
      and "createNodeList_next iter x s = Inr (succs, s')"
    then show "counter tc < counter (tc_b s')"
      using createNodeList_next_le by fastforce
  next
    show "counter tc < counter (tc_b \<lparr>nodeList_b = nl', cache_b = [(initial_fa iter, tempInitial)], tc_b = tc1\<rparr>)"
      using tc_factory_Inr(2)[OF b] by simp
  qed simp
  then show ?thesis using createNodeList_finish_le[OF e] by simp
qed

lemma stateElimination_chain:
  assumes "stateElimination iter m = Some (Inr (E, tc2))"
  shows "\<exists>r tc1. createNodeList iter (TransitionCreator_new m) = Some (Inr (r, tc1)) \<and>
      max_tc tc1 = m \<and> 0 < counter tc1 \<and>
      (case r of
         None \<Rightarrow> counter tc2 = counter tc1 + 1
       | Some nl \<Rightarrow> \<exists>st. eliminateStates nl tc1 = Some (Inr st) \<and> max_tc (tc_e st) = m \<and>
           counter tc1 \<le> counter (tc_e st) \<and> counter (tc_e st) < counter tc2)"
proof -
  from assms obtain r0 where a: "createNodeList iter (TransitionCreator_new m) = Some r0"
    by (auto simp: stateElimination_def bind_eq_Some_conv)
  from assms a obtain nlo tc1 where r: "r0 = Inr (nlo, tc1)"
    by (cases r0) (auto simp: stateElimination_def)
  note a' = a[unfolded r]
  have m1: "max_tc tc1 = m" using createNodeList_le[OF a'] by (simp add: TransitionCreator_new_def)
  have p1: "0 < counter tc1" using createNodeList_lt[OF a'] by simp
  have fin: "\<And>alts tc. tc_expression alts tc = Inr (E, tc2) \<Longrightarrow> counter tc < counter tc2"
    using tc_factory_Inr(5) by fastforce
  show ?thesis
  proof (cases nlo)
    case None
    with assms a r have "tc_emptyExpression tc1 = Inr (E, tc2)"
      by (simp add: stateElimination_def)
    then have "counter tc2 = counter tc1 + 1" using tc_factory_Inr(6) by blast
    then show ?thesis using a' m1 p1 None by simp
  next
    case (Some nl)
    from assms a r Some obtain r2 where b: "eliminateStates nl tc1 = Some r2"
      by (auto simp: stateElimination_def bind_eq_Some_conv)
    from assms a r Some b obtain st where r2: "r2 = Inr st"
      by (cases r2) (auto simp: stateElimination_def)
    note b' = b[unfolded r2]
    have m2: "max_tc (tc_e st) = m" and c2: "counter tc1 \<le> counter (tc_e st)"
      using eliminateStates_le[OF b'] m1 by simp_all
    from assms a r Some b r2 obtain finalState where f: "firstOf (finals (nodeList st)) = Some finalState"
      by (cases "firstOf (finals (nodeList st))") (auto simp: stateElimination_def)
    from assms a r Some b r2 f obtain t where
      g: "Map_get (initial (nodeList st)) (node_in (nodeList st) finalState) = Some t"
      by (cases "Map_get (initial (nodeList st)) (node_in (nodeList st) finalState)")
         (auto simp: stateElimination_def Let_def split: if_splits)
    from assms a r Some b r2 f g have h:
      "(case t of
          Elem (Alternation alts) \<Rightarrow> Some (tc_expression alts (tc_e st))
        | Concat c \<Rightarrow> Some (tc_expression [c] (tc_e st))
        | Elem e \<Rightarrow> (case tc_concat [e] (tc_e st) of
                       Inl err \<Rightarrow> Some (Inl err)
                     | Inr (c, tc') \<Rightarrow> Some (tc_expression [c] tc'))) = Some (Inr (E, tc2))"
      by (auto simp: stateElimination_def Let_def split: if_splits)
    have lt: "counter (tc_e st) < counter tc2"
    proof (cases t)
      case (Concat c)
      then show ?thesis using h fin by simp
    next
      case (Elem e)
      show ?thesis
      proof (cases "\<exists>alts. e = Alternation alts")
        case True
        then show ?thesis using h Elem fin by auto
      next
        case False
        with h Elem obtain c tc3 where k: "tc_concat [e] (tc_e st) = Inr (c, tc3)"
          and l: "tc_expression [c] tc3 = Inr (E, tc2)"
          by (cases e) (auto split: sum.splits)
        from tc_factory_Inr(1)[OF k] fin[OF l] show ?thesis by simp
      qed
    qed
    show ?thesis using a' m1 p1 Some b' m2 c2 lt by simp
  qed
qed

section \<open>The graph builder on an automaton without a reachable final state\<close>

text \<open>
  The depth-first search ends on a finite set of states that is closed under the
  successors: each step either fails or marks one more state of the set as visited.
\<close>

lemma DFS_loop_total:
  fixes I :: "'a list \<Rightarrow> 's \<Rightarrow> bool"
  assumes fin: "finite R"
    and step: "\<And>x vis s. x \<in> R \<Longrightarrow> x \<notin> set vis \<Longrightarrow> I vis s \<Longrightarrow>
        (case next x s of Inl e \<Rightarrow> P e | Inr (succs, s') \<Rightarrow> set succs \<subseteq> R \<and> I (x # vis) s')"
    and stack: "set stack \<subseteq> R"
    and start: "I visited s"
  shows "\<exists>r. DFS_loop next stack visited s = Some r \<and>
           (case r of Inl e \<Rightarrow> P e | Inr s' \<Rightarrow> \<exists>vis'. I vis' s')"
  using stack start
proof (induction "card (R - set visited)" arbitrary: stack visited s rule: less_induct)
  case less
  show ?case using less.prems
  proof (induction stack)
    case Nil
    then show ?case by (subst DFS_loop.simps) auto
  next
    case (Cons x rest)
    show ?case
    proof (cases "x \<in> set visited")
      case True
      from Cons.IH Cons.prems obtain r where
        "DFS_loop next rest visited s = Some r \<and> (case r of Inl e \<Rightarrow> P e | Inr s' \<Rightarrow> \<exists>vis'. I vis' s')"
        by auto
      then show ?thesis using True by (subst DFS_loop.simps) auto
    next
      case False
      have xR: "x \<in> R" using Cons.prems by simp
      note st = step[OF xR False Cons.prems(2)]
      show ?thesis
      proof (cases "next x s")
        case (Inl e)
        then show ?thesis using st False by (subst DFS_loop.simps) auto
      next
        case (Inr p)
        obtain succs s1 where p: "p = (succs, s1)" by (cases p)
        from st Inr p have sub: "set succs \<subseteq> R" and i: "I (x # visited) s1" by auto
        have "card (R - set (x # visited)) < card (R - set visited)"
          using fin xR False by (intro psubset_card_mono) auto
        from less.hyps[OF this _ i, of "succs @ rest"] sub Cons.prems obtain r where
          "DFS_loop next (succs @ rest) (x # visited) s1 = Some r \<and>
             (case r of Inl e \<Rightarrow> P e | Inr s' \<Rightarrow> \<exists>vis'. I vis' s')"
          by auto
        then show ?thesis using False Inr p by (subst DFS_loop.simps) auto
      qed
    qed
  qed
qed


lemma Array_sort_set: "set (Array_sort cmp xs) = set xs"
proof -
  have "set (foldl (\<lambda>sorted x. Array_sort_insert cmp x sorted) acc xs) = set acc \<union> set xs" for acc
    by (induction xs arbitrary: acc) (auto simp: insert_set)
  then show ?thesis by (simp add: Array_sort_def)
qed

lemma translate_finals: "translate n st = (v, st') \<Longrightarrow> finals (nodeList_b st') = finals (nodeList_b st)"
  by (auto simp: translate_def createNode_def split: option.splits)

lemma linkNodes_finals: "linkNodes a b t nl = Inr nl' \<Longrightarrow> finals nl' = finals nl"
  by (auto simp: linkNodes_def update_in_def update_out_def split: if_splits)

lemma linkNodes_Inl: "linkNodes a b t nl = Inl e \<Longrightarrow> e = AlreadyLinked"
  by (auto simp: linkNodes_def split: if_splits)

lemma tc_char_Inl: "tc_char cs tc = Inl e \<Longrightarrow> e = TooManyNodesError (max_tc tc)"
  by (auto simp: tc_char_def incrementCounter_def Let_def split: if_splits sum.splits)

lemma link_out_cases:
  "case link_out n out st of
     Inl e \<Rightarrow> e = TooManyNodesError (max_tc (tc_b st)) \<or> e = AlreadyLinked
   | Inr st' \<Rightarrow> finals (nodeList_b st') = finals (nodeList_b st) \<and> max_tc (tc_b st') = max_tc (tc_b st)"
proof (induction out arbitrary: st)
  case Nil
  then show ?case by simp
next
  case (Cons p out)
  obtain outNode charSet where p: "p = (outNode, charSet)" by (cases p)
  obtain frm st1 where a: "translate n st = (frm, st1)" by (cases "translate n st")
  obtain to st2 where b: "translate outNode st1 = (to, st2)" by (cases "translate outNode st1")
  have tc2: "tc_b st2 = tc_b st" using translate_tc[OF a] translate_tc[OF b] by simp
  have f2: "finals (nodeList_b st2) = finals (nodeList_b st)"
    using translate_finals[OF a] translate_finals[OF b] by simp
  show ?case
  proof (cases "tc_char charSet (tc_b st2)")
    case (Inl e)
    then show ?thesis using p a b tc2 tc_char_Inl[OF Inl] by simp
  next
    case (Inr q)
    obtain t tc' where q: "q = (t, tc')" by (cases q)
    note c = Inr[unfolded q]
    show ?thesis
    proof (cases "linkNodes frm to (Elem t) (nodeList_b st2)")
      case (Inl e)
      then show ?thesis using p a b c linkNodes_Inl[OF Inl] by simp
    next
      case (Inr nl)
      have "link_out n (p # out) st = link_out n out (st2\<lparr>nodeList_b := nl, tc_b := tc'\<rparr>)"
        using p a b c Inr by simp
      then show ?thesis
        using Cons.IH[of "st2\<lparr>nodeList_b := nl, tc_b := tc'\<rparr>"] tc_factory_Inr(7)[OF c]
          linkNodes_finals[OF Inr] tc2 f2
        by (auto split: sum.splits)
    qed
  qed
qed

lemma createNodeList_next_cases:
  assumes "\<not> isFinal iter n"
  shows "case createNodeList_next iter n st of
     Inl e \<Rightarrow> e = TooManyNodesError (max_tc (tc_b st)) \<or> e = AlreadyLinked
   | Inr (succs, st') \<Rightarrow> set succs = fst ` set (getOut iter n) \<and>
        finals (nodeList_b st') = finals (nodeList_b st) \<and> max_tc (tc_b st') = max_tc (tc_b st)"
  using assms link_out_cases[where n = n and out = "sorted_out iter n" and st = st]
  by (auto simp: createNodeList_next_def Let_def sorted_out_def Array_sort_set split: sum.splits)

lemma optimize_empty: "optimize (Expression []) = (False, Expression [])"
  by code_simp

lemma optimize_loop_empty: "optimize_loop passes (Expression []) = Some (Expression [])"
  by (subst optimize_loop.simps) (simp add: optimize_empty)

lemma createNodeList_no_final:
  assumes fin: "finite (reachable iter)" and nf: "\<forall>n\<in>reachable iter. \<not> isFinal iter n"
  shows "(\<exists>tc'. createNodeList iter tc = Some (Inr (None, tc')) \<and> max_tc tc' = max_tc tc)
       \<or> createNodeList iter tc = Some (Inl (TooManyNodesError (max_tc tc)))
       \<or> createNodeList iter tc = Some (Inl AlreadyLinked)"
proof -
  obtain tempInitial nl where a: "createNode NodeList_new = (tempInitial, nl)"
    by (cases "createNode NodeList_new")
  then have nl: "finals nl = []" by (auto simp: createNode_def NodeList_new_def)
  show ?thesis
  proof (cases "tc_emptyConcat tc")
    case (Inl e)
    then have "e = TooManyNodesError (max_tc tc)"
      by (auto simp: tc_emptyConcat_def incrementCounter_def Let_def split: if_splits sum.splits)
    then show ?thesis using a Inl by (simp add: createNodeList_def)
  next
    case (Inr q)
    obtain eps tc1 where q: "q = (eps, tc1)" by (cases q)
    note b = Inr[unfolded q]
    have m1: "max_tc tc1 = max_tc tc" using tc_factory_Inr(2)[OF b] by simp
    show ?thesis
    proof (cases "linkNodes (initial nl) tempInitial (Concat eps) nl")
      case (Inl e)
      then show ?thesis using a b linkNodes_Inl[OF Inl] by (simp add: createNodeList_def)
    next
      case (Inr nl')
      define st0 where "st0 = \<lparr>nodeList_b = nl', cache_b = [(initial_fa iter, tempInitial)], tc_b = tc1\<rparr>"
      define I where "I = (\<lambda>(vis :: 'a list) (s :: 'a build_state).
          finals (nodeList_b s) = [] \<and> max_tc (tc_b s) = max_tc tc)"
      define P where "P = (\<lambda>e. e = TooManyNodesError (max_tc tc) \<or> e = AlreadyLinked)"
      have "\<exists>r. DFS_loop (createNodeList_next iter) [initial_fa iter] [] st0 = Some r \<and>
           (case r of Inl e \<Rightarrow> P e | Inr s' \<Rightarrow> \<exists>vis'. I vis' s')"
      proof (rule DFS_loop_total[OF fin])
        fix x vis s
        assume x: "x \<in> reachable iter" and i: "I vis s"
        have "a \<in> reachable iter" if "(a, b) \<in> set (getOut iter x)" for a b
          using reachable.out[OF x that] .
        then show "case createNodeList_next iter x s of Inl e \<Rightarrow> P e
            | Inr (succs, s') \<Rightarrow> set succs \<subseteq> reachable iter \<and> I (x # vis) s'"
          using createNodeList_next_cases[of iter x s] nf x i
          by (auto simp: I_def P_def split: sum.splits)
      next
        show "set [initial_fa iter] \<subseteq> reachable iter" by (simp add: reachable.initial)
      next
        show "I [] st0" using linkNodes_finals[OF Inr] nl m1 by (simp add: I_def st0_def)
      qed
      then obtain r where r: "DFS (initial_fa iter) (createNodeList_next iter) st0 = Some r"
        and rr: "case r of Inl e \<Rightarrow> P e | Inr s' \<Rightarrow> \<exists>vis'. I vis' s'"
        by (auto simp: DFS_def)
      have c: "createNodeList iter tc = (case r of Inl e \<Rightarrow> Some (Inl e) | Inr st \<Rightarrow> createNodeList_finish st)"
        using a b Inr r by (simp add: createNodeList_def st0_def)
      show ?thesis
      proof (cases r)
        case (Inl e)
        then show ?thesis using c rr by (auto simp: P_def)
      next
        case (Inr st)
        then have "finals (nodeList_b st) = []" "max_tc (tc_b st) = max_tc tc"
          using rr by (auto simp: I_def)
        then show ?thesis using c Inr by (simp add: createNodeList_finish_def)
      qed
    qed
  qed
qed

lemma stateElimination_no_final:
  assumes fin: "finite (reachable iter)" and nf: "\<forall>n\<in>reachable iter. \<not> isFinal iter n"
  shows "(\<exists>tc'. stateElimination iter m = Some (Inr (Expression [], tc')))
       \<or> stateElimination iter m = Some (Inl (TooManyNodesError m))
       \<or> stateElimination iter m = Some (Inl AlreadyLinked)"
proof -
  have e: "(\<exists>tc'. tc_emptyExpression tc1 = Inr (Expression [], tc')) \<or>
           tc_emptyExpression tc1 = Inl (TooManyNodesError m)" if "max_tc tc1 = m" for tc1
    using that by (auto simp: tc_emptyExpression_def incrementCounter_def Let_def)
  have m: "max_tc (TransitionCreator_new m) = m" by (simp add: TransitionCreator_new_def)
  from createNodeList_no_final[OF fin nf, of "TransitionCreator_new m"]
  consider tc' where "createNodeList iter (TransitionCreator_new m) = Some (Inr (None, tc'))" "max_tc tc' = m"
    | "createNodeList iter (TransitionCreator_new m) = Some (Inl (TooManyNodesError m))"
    | "createNodeList iter (TransitionCreator_new m) = Some (Inl AlreadyLinked)"
    unfolding m by blast
  then show ?thesis
  proof cases
    case 1
    then show ?thesis using e[OF 1(2)] by (auto simp: stateElimination_def)
  next
    case 2
    then show ?thesis by (simp add: stateElimination_def)
  next
    case 3
    then show ?thesis by (simp add: stateElimination_def)
  qed
qed

lemma faToRegex_no_final_cases:
  assumes "finite (reachable iter)" and "\<forall>n\<in>reachable iter. \<not> isFinal iter n"
  shows "faToRegex iter options = Some (Inr (Expression []))
       \<or> faToRegex iter options = Some (Inl (TooManyNodesError (maxAstNodes_of options)))
       \<or> faToRegex iter options = Some (Inl AlreadyLinked)"
  using stateElimination_no_final[OF assms, of "maxAstNodes_of options"]
  by (auto simp: faToRegex_def Let_def maxAstNodes_of_def optimize_loop_empty)

lemma cache_inj:
  assumes "map snd c = [1 ..< n]" "map_of c a = Some v" "map_of c b = Some v"
  shows "a = b"
proof -
  have "distinct (map snd c)" using assms(1) by simp
  then have "inj_on snd (set c)" by (simp add: distinct_map)
  moreover have "(a, v) \<in> set c" "(b, v) \<in> set c"
    using assms(2,3) by (auto dest: map_of_SomeD)
  ultimately have "snd (a, v) = snd (b, v) \<longrightarrow> (a, v) = (b, v)"
    by (blast dest: inj_onD)
  then show ?thesis by simp
qed

lemma cache_range:
  assumes "map snd c = [1 ..< n]" "map_of c a = Some v"
  shows "1 \<le> v \<and> v < n"
proof -
  have "v \<in> set (map snd c)" using assms(2) by (force dest: map_of_SomeD)
  then show ?thesis using assms(1) by simp
qed

lemma Map_has_keys: "Map_has k m \<longleftrightarrow> k \<in> fst ` set m"
  by (simp add: Map_has_def map_of_eq_None_iff)

lemma Map_set_keys: "fst ` set (Map_set k v m) = insert k (fst ` set m)"
  by (induction m) auto

lemma Map_set_nonempty: "Map_set k v m \<noteq> []"
  by (cases m) auto

lemma translate_cached: "map_of (cache_b st) n = Some v \<Longrightarrow> translate n st = (v, st)"
  by (simp add: translate_def)

lemma translate_inv:
  assumes t: "translate n st = (v, st')" and inv: "build_inv vis cur st"
  shows "build_inv vis cur st'"
    and "map_of (cache_b st') n = Some v"
    and "\<And>k w. map_of (cache_b st) k = Some w \<Longrightarrow> map_of (cache_b st') k = Some w"
    and "\<And>u. u < length (nodes (nodeList_b st)) \<Longrightarrow> nodes (nodeList_b st') ! u = nodes (nodeList_b st) ! u"
    and "fst ` set (cache_b st) \<subseteq> fst ` set (cache_b st')"
proof -
  show "build_inv vis cur st'"
  proof (cases "map_of (cache_b st) n")
    case (Some w)
    then show ?thesis using t inv by (simp add: translate_def)
  next
    case None
    then have st': "st' = st\<lparr>nodeList_b := (nodeList_b st)\<lparr>nodes := nodes (nodeList_b st) @ [\<lparr>out_m = [], in_m = []\<rparr>]\<rparr>,
        cache_b := cache_b st @ [(n, length (nodes (nodeList_b st)))]\<rparr>"
      using t by (auto simp: translate_def createNode_def)
    show ?thesis
      unfolding build_inv_def st'
    proof (intro conjI allI impI)
      fix u
      assume u: "u < length (nodes (nodeList_b (st\<lparr>nodeList_b := (nodeList_b st)\<lparr>nodes := nodes (nodeList_b st) @ [\<lparr>out_m = [], in_m = []\<rparr>]\<rparr>,
          cache_b := cache_b st @ [(n, length (nodes (nodeList_b st)))]\<rparr>)))"
        and ne: "out_m (nodes (nodeList_b (st\<lparr>nodeList_b := (nodeList_b st)\<lparr>nodes := nodes (nodeList_b st) @ [\<lparr>out_m = [], in_m = []\<rparr>]\<rparr>,
          cache_b := cache_b st @ [(n, length (nodes (nodeList_b st)))]\<rparr>)) ! u) \<noteq> []"
      have "u < length (nodes (nodeList_b st))"
        using u ne by (cases "u = length (nodes (nodeList_b st))") (auto simp: nth_append)
      moreover from this ne have "out_m (nodes (nodeList_b st) ! u) \<noteq> []" by (simp add: nth_append)
      ultimately have "u = 0 \<or> (\<exists>y \<in> set vis \<union> cur. map_of (cache_b st) y = Some u)"
        using inv by (simp add: build_inv_def)
      then show "u = 0 \<or> (\<exists>y \<in> set vis \<union> cur. map_of (cache_b (st\<lparr>nodeList_b := (nodeList_b st)\<lparr>nodes := nodes (nodeList_b st) @ [\<lparr>out_m = [], in_m = []\<rparr>]\<rparr>,
          cache_b := cache_b st @ [(n, length (nodes (nodeList_b st)))]\<rparr>)) y = Some u)"
        by (auto simp: map_add_Some_iff)
    qed (use inv in \<open>auto simp: build_inv_def Suc_le_eq\<close>)
  qed
  show "map_of (cache_b st') n = Some v"
    using t by (auto simp: translate_def createNode_def map_add_Some_iff split: option.splits)
  show "\<And>k w. map_of (cache_b st) k = Some w \<Longrightarrow> map_of (cache_b st') k = Some w"
    using t by (auto simp: translate_def createNode_def map_add_Some_iff split: option.splits)
  show "\<And>u. u < length (nodes (nodeList_b st)) \<Longrightarrow> nodes (nodeList_b st') ! u = nodes (nodeList_b st) ! u"
    using t by (auto simp: translate_def createNode_def nth_append split: option.splits)
  show "fst ` set (cache_b st) \<subseteq> fst ` set (cache_b st')"
    using t by (auto simp: translate_def createNode_def split: option.splits)
qed

lemma linkNodes_out:
  assumes "a < length (nodes nl)" "b < length (nodes nl)" "\<not> Map_has b (node_out nl a)"
  shows "\<exists>nl'. linkNodes a b t nl = Inr nl' \<and> finals nl' = finals nl \<and>
      length (nodes nl') = length (nodes nl) \<and>
      (\<forall>v < length (nodes nl). out_m (nodes nl' ! v) =
          (if v = a then Map_set b t (out_m (nodes nl ! a)) else out_m (nodes nl ! v)))"
  using assms
  by (auto simp: linkNodes_def update_in_def update_out_def node_out_def nth_list_update)


lemma tc_char_ok:
  "int (counter tc) + 1 \<le> max_tc tc \<Longrightarrow>
   tc_char cs tc = Inr (CharacterClass cs, tc\<lparr>counter := counter tc + 1\<rparr>)"
  by (simp add: tc_char_def incrementCounter_def Let_def)

lemma link_out_ok:
  assumes "build_inv vis {x} st"
    and "map_of (cache_b st) x = Some vx"
    and "set done \<subseteq> fst ` set (cache_b st)"
    and "fst ` set (out_m (nodes (nodeList_b st) ! vx)) = (\<lambda>o'. the (map_of (cache_b st) o')) ` set done"
    and "distinct (done @ map fst out)"
    and "int (counter (tc_b st)) + int (length out) \<le> max_tc (tc_b st)"
  shows "\<exists>st'. link_out x out st = Inr st' \<and> build_inv vis {x} st' \<and>
      counter (tc_b st') = counter (tc_b st) + length out \<and> max_tc (tc_b st') = max_tc (tc_b st)"
  using assms
proof (induction out arbitrary: st "done")
  case Nil
  then show ?case by simp
next
  case (Cons p out)
  obtain outNode charSet where p: "p = (outNode, charSet)" by (cases p)
  note inv = Cons.prems(1) and cx = Cons.prems(2) and dn = Cons.prems(3) and keys = Cons.prems(4)
    and dist = Cons.prems(5) and budget = Cons.prems(6)
  have a: "translate x st = (vx, st)" using cx by (rule translate_cached)
  obtain to st2 where b: "translate outNode st = (to, st2)" by (cases "translate outNode st")
  note inv2 = translate_inv(1)[OF b inv] and c2 = translate_inv(2)[OF b inv]
    and mono = translate_inv(3)[OF b inv] and same = translate_inv(4)[OF b inv]
    and dom = translate_inv(5)[OF b inv]
  have tc2: "tc_b st2 = tc_b st" using translate_tc[OF b] .
  let ?n = "length (nodes (nodeList_b st))"
  let ?n2 = "length (nodes (nodeList_b st2))"
  have snd2: "map snd (cache_b st2) = [1 ..< ?n2]" using inv2 by (simp add: build_inv_def)
  have snd1: "map snd (cache_b st) = [1 ..< ?n]" using inv by (simp add: build_inv_def)
  have vx: "vx < ?n" using cache_range[OF snd1 cx] by simp
  have vx2: "vx < ?n2" using cache_range[OF snd2 mono[OF cx]] by simp
  have to2: "to < ?n2" using cache_range[OF snd2 c2] by simp
  have done_cached: "map_of (cache_b st2) o' = map_of (cache_b st) o'" if "o' \<in> set done" for o'
  proof -
    from that dn obtain w where "map_of (cache_b st) o' = Some w"
      by (metis domIff dom_map_of_conv_image_fst not_None_eq subsetD)
    then show ?thesis using mono by simp
  qed
  have out2: "out_m (nodes (nodeList_b st2) ! vx) = out_m (nodes (nodeList_b st) ! vx)"
    using same[OF vx] by simp
  have notlinked: "\<not> Map_has to (node_out (nodeList_b st2) vx)"
  proof
    assume "Map_has to (node_out (nodeList_b st2) vx)"
    then have "to \<in> (\<lambda>o'. the (map_of (cache_b st) o')) ` set done"
      using keys out2 by (simp add: Map_has_keys node_out_def)
    then obtain o' where o': "o' \<in> set done" "to = the (map_of (cache_b st) o')" by auto
    from o'(1) dn obtain w where w: "map_of (cache_b st) o' = Some w"
      by (metis domIff dom_map_of_conv_image_fst not_None_eq subsetD)
    then have "map_of (cache_b st2) o' = Some to" using mono o'(2) by simp
    from cache_inj[OF snd2 this c2] have "o' = outNode" .
    then show False using o'(1) dist p by simp
  qed
  have charok: "tc_char charSet (tc_b st2) = Inr (CharacterClass charSet, (tc_b st)\<lparr>counter := counter (tc_b st) + 1\<rparr>)"
    using tc_char_ok[of "tc_b st" charSet] budget tc2 by simp
  from linkNodes_out[OF vx2 to2 notlinked, of "Elem (CharacterClass charSet)"]
  obtain nl3 where l: "linkNodes vx to (Elem (CharacterClass charSet)) (nodeList_b st2) = Inr nl3"
    and f3: "finals nl3 = finals (nodeList_b st2)"
    and len3: "length (nodes nl3) = ?n2"
    and out3: "\<And>v. v < ?n2 \<Longrightarrow> out_m (nodes nl3 ! v) =
          (if v = vx then Map_set to (Elem (CharacterClass charSet)) (out_m (nodes (nodeList_b st2) ! vx))
           else out_m (nodes (nodeList_b st2) ! v))"
    by blast
  define st3 where "st3 = st2\<lparr>nodeList_b := nl3, tc_b := (tc_b st)\<lparr>counter := counter (tc_b st) + 1\<rparr>\<rparr>"
  have step: "link_out x (p # out) st = link_out x out st3"
    using p a b charok l by (simp add: st3_def)
  have inv3: "build_inv vis {x} st3"
    unfolding build_inv_def
  proof (intro conjI allI impI)
    show "finals (nodeList_b st3) = []" using f3 inv2 by (simp add: st3_def build_inv_def)
    show "0 < length (nodes (nodeList_b st3))" using len3 inv2 by (simp add: st3_def build_inv_def)
    show "map snd (cache_b st3) = [1 ..< length (nodes (nodeList_b st3))]"
      using len3 snd2 by (simp add: st3_def)
  next
    fix v assume v: "v < length (nodes (nodeList_b st3))" and ne: "out_m (nodes (nodeList_b st3) ! v) \<noteq> []"
    show "v = 0 \<or> (\<exists>y\<in>set vis \<union> {x}. map_of (cache_b st3) y = Some v)"
    proof (cases "v = vx")
      case True
      then show ?thesis using mono[OF cx] by (simp add: st3_def)
    next
      case False
      then have "out_m (nodes (nodeList_b st2) ! v) \<noteq> []"
        using out3[of v] v ne len3 by (simp add: st3_def)
      then show ?thesis using inv2 v len3 by (simp add: build_inv_def st3_def)
    qed
  qed
  have cx3: "map_of (cache_b st3) x = Some vx" using mono[OF cx] by (simp add: st3_def)
  have dn3: "set (done @ [outNode]) \<subseteq> fst ` set (cache_b st3)"
  proof -
    have "outNode \<in> fst ` set (cache_b st2)"
      using c2 by (metis domI dom_map_of_conv_image_fst)
    then show ?thesis using dn dom by (auto simp: st3_def)
  qed
  have keys3: "fst ` set (out_m (nodes (nodeList_b st3) ! vx)) =
      (\<lambda>o'. the (map_of (cache_b st3) o')) ` set (done @ [outNode])"
  proof -
    have "fst ` set (out_m (nodes (nodeList_b st3) ! vx)) =
        insert to ((\<lambda>o'. the (map_of (cache_b st) o')) ` set done)"
      using out3[OF vx2] out2 keys by (simp add: st3_def Map_set_keys)
    also have "(\<lambda>o'. the (map_of (cache_b st) o')) ` set done = (\<lambda>o'. the (map_of (cache_b st2) o')) ` set done"
      using done_cached by (intro image_cong) simp_all
    finally show ?thesis using c2 by (simp add: st3_def)
  qed
  have dist3: "distinct ((done @ [outNode]) @ map fst out)" using dist p by simp
  have budget3: "int (counter (tc_b st3)) + int (length out) \<le> max_tc (tc_b st3)"
    using budget by (simp add: st3_def)
  from Cons.IH[OF inv3 cx3 dn3 keys3 dist3 budget3] step show ?case
    by (auto simp: st3_def)
qed


lemma Array_sort_insert_length: "length (Array_sort_insert cmp x ys) = Suc (length ys)"
  by (induction ys) auto

lemma Array_sort_length: "length (Array_sort cmp xs) = length xs"
proof -
  have "length (foldl (\<lambda>sorted x. Array_sort_insert cmp x sorted) acc xs) = length acc + length xs" for acc
    by (induction xs arbitrary: acc) (auto simp: Array_sort_insert_length)
  then show ?thesis by (simp add: Array_sort_def)
qed

lemma Array_sort_insert_distinct:
  "distinct (map fst (Array_sort_insert cmp x ys)) \<longleftrightarrow> fst x \<notin> fst ` set ys \<and> distinct (map fst ys)"
  by (induction ys) (auto simp: insert_set)

lemma Array_sort_distinct: "distinct (map fst (Array_sort cmp xs)) \<longleftrightarrow> distinct (map fst xs)"
proof -
  have "distinct (map fst (foldl (\<lambda>sorted x. Array_sort_insert cmp x sorted) acc xs))
      \<longleftrightarrow> distinct (map fst (acc @ xs))" for acc
  proof (induction xs arbitrary: acc)
    case Nil
    then show ?case by simp
  next
    case (Cons x xs)
    have "set (Array_sort_insert cmp x acc) = insert x (set acc)" by (rule insert_set)
    then show ?case using Cons[of "Array_sort_insert cmp x acc"]
      by (auto simp: Array_sort_insert_distinct)
  qed
  then show ?thesis by (simp add: Array_sort_def)
qed

lemma link_out_pre:
  "out \<noteq> [] \<Longrightarrow> link_out x out st = link_out x out (snd (translate x st))"
proof (cases out)
  case Nil
  assume "out \<noteq> []"
  with Nil show ?thesis by simp
next
  case (Cons p rest)
  obtain outNode charSet where p: "p = (outNode, charSet)" by (cases p)
  obtain vx st1 where a: "translate x st = (vx, st1)" by (cases "translate x st")
  have "map_of (cache_b st1) x = Some vx"
    using a by (auto simp: translate_def createNode_def map_add_Some_iff split: option.splits)
  then have "translate x st1 = (vx, st1)" by (rule translate_cached)
  then show ?thesis using Cons p a by simp
qed

lemma build_inv_visited: "build_inv vis {x} st \<Longrightarrow> build_inv (x # vis) {} st"
  by (simp add: build_inv_def)

lemma build_inv_current: "build_inv vis {} st \<Longrightarrow> build_inv vis {x} st"
  by (auto simp: build_inv_def)

lemma createNodeList_next_ok:
  assumes inv: "build_inv vis {} st"
    and x: "x \<notin> set vis"
    and nf: "\<not> isFinal iter x"
    and dist: "distinct (map fst (getOut iter x))"
    and budget: "int (counter (tc_b st)) + int (length (getOut iter x)) \<le> max_tc (tc_b st)"
  shows "\<exists>st'. createNodeList_next iter x st = Inr (map fst (sorted_out iter x), st') \<and>
      build_inv (x # vis) {} st' \<and>
      counter (tc_b st') = counter (tc_b st) + length (getOut iter x) \<and>
      max_tc (tc_b st') = max_tc (tc_b st)"
proof (cases "sorted_out iter x = []")
  case True
  then have "length (getOut iter x) = 0"
    using Array_sort_length[of compare_out "getOut iter x"] by (simp add: sorted_out_def)
  then show ?thesis using True nf build_inv_visited[OF build_inv_current[OF inv], of x]
    by (simp add: createNodeList_next_def Let_def)
next
  case False
  obtain vx st1 where a: "translate x st = (vx, st1)" by (cases "translate x st")
  note inv1 = translate_inv(1)[OF a inv] and cx = translate_inv(2)[OF a inv]
  have snd1: "map snd (cache_b st1) = [1 ..< length (nodes (nodeList_b st1))]"
    using inv1 by (simp add: build_inv_def)
  have vx: "1 \<le> vx \<and> vx < length (nodes (nodeList_b st1))" using cache_range[OF snd1 cx] .
  have empty: "out_m (nodes (nodeList_b st1) ! vx) = []"
  proof (rule ccontr)
    assume "out_m (nodes (nodeList_b st1) ! vx) \<noteq> []"
    with inv1 vx obtain y where y: "y \<in> set vis" "map_of (cache_b st1) y = Some vx"
      by (auto simp: build_inv_def)
    from cache_inj[OF snd1 y(2) cx] y(1) x show False by simp
  qed
  have "\<exists>st'. link_out x (sorted_out iter x) st1 = Inr st' \<and> build_inv vis {x} st' \<and>
      counter (tc_b st') = counter (tc_b st1) + length (sorted_out iter x) \<and>
      max_tc (tc_b st') = max_tc (tc_b st1)"
  proof (rule link_out_ok[where ?done = "[]", OF build_inv_current[OF inv1] cx])
    show "distinct ([] @ map fst (sorted_out iter x))"
      using dist by (simp add: sorted_out_def Array_sort_distinct)
    show "int (counter (tc_b st1)) + int (length (sorted_out iter x)) \<le> max_tc (tc_b st1)"
      using budget translate_tc[OF a] by (simp add: sorted_out_def Array_sort_length)
  qed (simp_all add: empty)
  then obtain st' where l: "link_out x (sorted_out iter x) st1 = Inr st'"
    and inv': "build_inv vis {x} st'"
    and c': "counter (tc_b st') = counter (tc_b st1) + length (sorted_out iter x)"
    and m': "max_tc (tc_b st') = max_tc (tc_b st1)"
    by blast
  have "link_out x (sorted_out iter x) st = Inr st'"
    using link_out_pre[OF False, of x st] a l by simp
  then show ?thesis
    using nf build_inv_visited[OF inv'] c' m' translate_tc[OF a]
    by (simp add: createNodeList_next_def Let_def sorted_out_def Array_sort_length)
qed

lemma sum_list_le_sum:
  fixes f :: "'a \<Rightarrow> nat"
  assumes "distinct xs" "set xs \<subseteq> R" "finite R"
  shows "sum_list (map f xs) \<le> sum f R"
proof -
  have "sum_list (map f xs) = sum f (set xs)" using assms(1) by (rule sum_list_distinct_conv_sum_set)
  also have "\<dots> \<le> sum f R" using assms(2,3) by (intro sum_mono2) auto
  finally show ?thesis .
qed


lemma createNodeList_ok:
  assumes fin: "finite (reachable iter)"
    and nf: "\<forall>n\<in>reachable iter. \<not> isFinal iter n"
    and dist: "\<forall>n\<in>reachable iter. distinct (map fst (getOut iter n))"
    and budget: "int (\<Sum>n\<in>reachable iter. length (getOut iter n)) + 2 \<le> max_tc tc"
    and zero: "counter tc = 0"
  shows "\<exists>tc'. createNodeList iter tc = Some (Inr (None, tc')) \<and> max_tc tc' = max_tc tc \<and>
      int (counter tc') + 1 \<le> max_tc tc"
proof -
  let ?f = "\<lambda>n. length (getOut iter n)"
  define N where "N = sum ?f (reachable iter)"
  have budget': "int N + 2 \<le> max_tc tc" using budget by (simp only: N_def)
  define tc1 where "tc1 = tc\<lparr>counter := 1\<rparr>"
  have b: "tc_emptyConcat tc = Inr (Concatenation [], tc1)"
    using budget' zero by (simp add: tc_emptyConcat_def incrementCounter_def Let_def tc1_def)
  define nl' where "nl' = \<lparr>initial = 0, finals = [],
     nodes = [\<lparr>out_m = [(1, Concat (Concatenation []))], in_m = []\<rparr>,
              \<lparr>out_m = [], in_m = [(0, Concat (Concatenation []))]\<rparr>]\<rparr>"
  have a: "createNode NodeList_new = (1, \<lparr>initial = 0, finals = [], nodes = [\<lparr>out_m = [], in_m = []\<rparr>, \<lparr>out_m = [], in_m = []\<rparr>]\<rparr>)"
    by (simp add: createNode_def NodeList_new_def)
  have c: "linkNodes 0 1 (Concat (Concatenation []))
      \<lparr>initial = 0, finals = [], nodes = [\<lparr>out_m = [], in_m = []\<rparr>, \<lparr>out_m = [], in_m = []\<rparr>]\<rparr> = Inr nl'"
    by (simp add: linkNodes_def Map_has_def node_out_def update_in_def update_out_def nl'_def)
  define st0 where "st0 = \<lparr>nodeList_b = nl', cache_b = [(initial_fa iter, 1)], tc_b = tc1\<rparr>"
  define I where "I = (\<lambda>vis s. build_inv vis {} s \<and> distinct vis \<and> set vis \<subseteq> reachable iter \<and>
      max_tc (tc_b s) = max_tc tc \<and> counter (tc_b s) = 1 + sum_list (map ?f vis))"
  have "\<exists>r. DFS_loop (createNodeList_next iter) [initial_fa iter] [] st0 = Some r \<and>
           (case r of Inl e \<Rightarrow> False | Inr s' \<Rightarrow> \<exists>vis'. I vis' s')"
  proof (rule DFS_loop_total[OF fin])
    fix x vis s
    assume x: "x \<in> reachable iter" and xv: "x \<notin> set vis" and i: "I vis s"
    have "sum_list (map ?f (x # vis)) \<le> N"
      unfolding N_def using i x xv fin by (intro sum_list_le_sum) (auto simp: I_def)
    then have bud: "int (counter (tc_b s)) + int (length (getOut iter x)) \<le> max_tc (tc_b s)"
      using i budget' by (simp add: I_def)
    from createNodeList_next_ok[OF _ xv _ _ bud] i nf dist x
    obtain st' where n: "createNodeList_next iter x s = Inr (map fst (sorted_out iter x), st')"
      and inv': "build_inv (x # vis) {} st'"
      and c': "counter (tc_b st') = counter (tc_b s) + length (getOut iter x)"
      and m': "max_tc (tc_b st') = max_tc (tc_b s)"
      by (auto simp: I_def)
    have "set (map fst (sorted_out iter x)) \<subseteq> reachable iter"
      using reachable.out[OF x] by (auto simp: sorted_out_def Array_sort_set)
    then show "case createNodeList_next iter x s of Inl e \<Rightarrow> False
        | Inr (succs, s') \<Rightarrow> set succs \<subseteq> reachable iter \<and> I (x # vis) s'"
      using n inv' c' m' i x xv by (simp add: I_def)
  next
    show "set [initial_fa iter] \<subseteq> reachable iter" by (simp add: reachable.initial)
  next
    have "build_inv [] {} st0"
      by (auto simp: build_inv_def st0_def nl'_def less_Suc_eq numeral_2_eq_2)
    then show "I [] st0" by (simp add: I_def st0_def tc1_def)
  qed
  then obtain r0 where r0: "DFS_loop (createNodeList_next iter) [initial_fa iter] [] st0 = Some r0"
    and r1: "case r0 of Inl e \<Rightarrow> False | Inr s' \<Rightarrow> \<exists>vis'. I vis' s'"
    by blast
  from r1 obtain st where r2: "r0 = Inr st" and i: "\<exists>vis'. I vis' st"
    by (cases r0) auto
  have r: "DFS (initial_fa iter) (createNodeList_next iter) st0 = Some (Inr st)"
    using r0 r2 by (simp add: DFS_def)
  from i obtain vis where v: "I vis st" by blast
  have "sum_list (map ?f vis) \<le> N"
    unfolding N_def using v fin by (intro sum_list_le_sum) (auto simp: I_def)
  then have cnt: "int (counter (tc_b st)) + 1 \<le> max_tc tc" using v budget' by (simp add: I_def)
  have "createNodeList iter tc = createNodeList_finish st"
    using a b c r by (simp add: createNodeList_def st0_def)
  moreover have "createNodeList_finish st = Some (Inr (None, tc_b st))"
    using v by (simp add: createNodeList_finish_def I_def build_inv_def)
  ultimately show ?thesis using cnt v by (simp add: I_def)
qed

lemma faToRegex_no_final_ok:
  assumes fin: "finite (reachable iter)"
    and nf: "\<forall>n\<in>reachable iter. \<not> isFinal iter n"
    and dist: "\<forall>n\<in>reachable iter. distinct (map fst (getOut iter n))"
    and budget: "int (\<Sum>n\<in>reachable iter. length (getOut iter n)) + 2 \<le> maxAstNodes_of options"
  shows "faToRegex iter options = Some (Inr (Expression []))"
proof -
  from createNodeList_ok[OF fin nf dist, of "TransitionCreator_new (maxAstNodes_of options)"] budget
  obtain tc' where c: "createNodeList iter (TransitionCreator_new (maxAstNodes_of options)) = Some (Inr (None, tc'))"
    and m: "max_tc tc' = maxAstNodes_of options" and cnt: "int (counter tc') + 1 \<le> maxAstNodes_of options"
    by (auto simp: TransitionCreator_new_def)
  have "tc_emptyExpression tc' = Inr (Expression [], tc'\<lparr>counter := counter tc' + 1\<rparr>)"
    using m cnt by (simp add: tc_emptyExpression_def incrementCounter_def Let_def)
  then have "stateElimination iter (maxAstNodes_of options) =
      Some (Inr (Expression [], tc'\<lparr>counter := counter tc' + 1\<rparr>))"
    using c by (simp add: stateElimination_def)
  then show ?thesis
    by (simp add: faToRegex_def Let_def maxAstNodes_of_def[symmetric] optimize_loop_empty)
qed

section \<open>The claims about character sets\<close>

text \<open>
  C10. In \<open>checkRange\<close> the second \<open>throw\<close> (the one reporting \<open>max > maximum\<close>) is never
  reached: for every range the method either throws at its first condition
  (\<open>min < 0\<close>, \<open>min > max\<close> or \<open>max > maximum\<close>) or returns the range unchanged.
\<close>

theorem checkRange_second_throw_unreachable:
  "checkRange this r \<noteq> Inl (RangeError_max x y) \<and>
   checkRange this r =
     (if min_r r < 0 \<or> min_r r > max_r r \<or> max_r r > maximum this
      then Inl (RangeError_min (min_r r)) else Inr r)"
  by (simp add: checkRange_def)

theorem checkRange_second_throw_unreachable_witness:
  "checkRange set_2_6 \<lparr>min_r = 3, max_r = 11\<rparr> \<noteq> Inl (RangeError_max 11 10) \<and>
   checkRange set_2_6 \<lparr>min_r = 3, max_r = 11\<rparr> = Inl (RangeError_min 3) \<and>
   checkRange set_2_6 \<lparr>min_r = 3, max_r = 10\<rparr> = Inr \<lparr>min_r = 3, max_r = 10\<rparr>"
  using checkRange_second_throw_unreachable [of set_2_6 "\<lparr>min_r = 3, max_r = 11\<rparr>" 11 10]
    checkRange_second_throw_unreachable [of set_2_6 "\<lparr>min_r = 3, max_r = 10\<rparr>" 11 10]
  by (simp add: set_2_6_def)

text \<open>
  C9. Every operation that returns a set returns one with the receiver's \<open>maximum\<close>:
  \<open>negate\<close> always, and \<open>union\<close>, \<open>intersect\<close> and \<open>without\<close> for every argument with which
  they return.
\<close>

theorem operations_preserve_maximum:
  "maximum (CharSet_negate s) = maximum s \<and>
   (\<forall>data u. CharSet_union s data = Inr u \<longrightarrow> maximum u = maximum s) \<and>
   (\<forall>d r. CharSet_intersect s d = Inr r \<longrightarrow> maximum r = maximum s) \<and>
   (\<forall>d r. CharSet_without s d = Inr r \<longrightarrow> maximum r = maximum s)"
proof -
  have u: "maximum u = maximum s" if "CharSet_union s data = Inr u" for data u
    using that
    by (auto simp: CharSet_union_def split: list.splits ranges_or_set.splits sum.splits if_splits)
  have i: "maximum r = maximum s" if "CharSet_intersect s d = Inr r" for d r
    using that
    by (auto simp: CharSet_intersect_def CharSet_empty_def Let_def split: sum.splits if_splits)
  have w: "maximum r = maximum s" if "CharSet_without s d = Inr r" for d r
    using that
    by (auto simp: CharSet_without_def CharSet_empty_def Let_def split: sum.splits if_splits)
  show ?thesis using u i w by (simp add: CharSet_negate_def)
qed

theorem operations_preserve_maximum_witness:
  "maximum (CharSet_negate set_1_3_6_8) = 10 \<and>
   (\<exists>u. CharSet_union set_1_3_6_8 [OfSet set_2_6] = Inr u \<and> maximum u = 10) \<and>
   (\<exists>r. CharSet_intersect set_1_3_6_8 (OfSet set_2_6) = Inr r \<and> maximum r = 10) \<and>
   (\<exists>r. CharSet_without set_1_3_6_8 (OfRanges [\<lparr>min_r = 2, max_r = 6\<rparr>]) = Inr r \<and> maximum r = 10)"
proof -
  have m: "maximum set_1_3_6_8 = 10" by (simp add: set_1_3_6_8_def)
  have u: "CharSet_union set_1_3_6_8 [OfSet set_2_6] = Inr \<lparr>maximum = 10, ranges = [\<lparr>min_r = 1, max_r = 8\<rparr>]\<rparr>"
    by code_simp
  have i: "CharSet_intersect set_1_3_6_8 (OfSet set_2_6) =
      Inr \<lparr>maximum = 10, ranges = [\<lparr>min_r = 2, max_r = 3\<rparr>, \<lparr>min_r = 6, max_r = 6\<rparr>]\<rparr>"
    by code_simp
  have w: "CharSet_without set_1_3_6_8 (OfRanges [\<lparr>min_r = 2, max_r = 6\<rparr>]) =
      Inr \<lparr>maximum = 10, ranges = [\<lparr>min_r = 1, max_r = 1\<rparr>, \<lparr>min_r = 7, max_r = 8\<rparr>]\<rparr>"
    by code_simp
  show ?thesis using operations_preserve_maximum [of set_1_3_6_8] m u i w by simp
qed

text \<open>
  C2. The claim is the invariant that the class documents for \<open>ranges\<close> (``0 <= min <=
  max <= this.maximum for all ranges'', ``at all times''), and the code breaks it at
  one place: neither \<open>CharSet.empty\<close> nor \<open>negate\<close> looks at the sign of \<open>maximum\<close>, and
  \<open>negateRanges\<close> answers an empty list of ranges with the single range \<open>[0, maximum]\<close>.
  So \<open>CharSet.empty(-1)\<close>, a set in normal form, has the \<open>negate\<close> \<open>[0, -1]\<close>, a range
  whose \<open>min\<close> exceeds its \<open>max\<close>.
\<close>

theorem negate_of_negative_maximum_breaks_invariant:
  "normal_form (CharSet_empty (- 1)) \<and>
   CharSet_negate (CharSet_empty (- 1)) = \<lparr>maximum = - 1, ranges = [\<lparr>min_r = 0, max_r = - 1\<rparr>]\<rparr> \<and>
   \<not> normal_form (CharSet_negate (CharSet_empty (- 1)))"
  by (simp add: normal_form_def CharSet_empty_def CharSet_negate_def negateRanges_def
      sorted_by_min_def in_bounds_def valid_range_def)

text \<open>
  A negative \<open>maximum\<close> is the only way to break the invariant. For a set in normal form,
  every set returned by \<open>union\<close>, \<open>intersect\<close> or \<open>without\<close> (the set arguments in normal
  form too) is in normal form: sorted by \<open>min\<close>, pairwise disjoint, non-adjacent, every
  range within \<open>[0, maximum]\<close>; and so is the set returned by \<open>negate\<close> when \<open>maximum\<close> is
  not negative.
\<close>

theorem operations_keep_normal_form:
  "normal_form this \<Longrightarrow>
     (0 \<le> maximum this \<longrightarrow> normal_form (CharSet_negate this)) \<and>
     (\<forall>data u. list_all arg_normal data \<and> CharSet_union this data = Inr u \<longrightarrow> normal_form u) \<and>
     (\<forall>d r. arg_normal d \<and> CharSet_intersect this d = Inr r \<longrightarrow> normal_form r) \<and>
     (\<forall>d r. arg_normal d \<and> CharSet_without this d = Inr r \<longrightarrow> normal_form r)"
  using CharSet_negate_normal CharSet_union_normal CharSet_intersect_normal CharSet_without_normal
  by blast

theorem operations_keep_normal_form_witness:
  "normal_form set_1_3_6_8 \<and> normal_form (CharSet_negate set_1_3_6_8) \<and>
   (\<exists>u. CharSet_union set_1_3_6_8 [OfSet set_2_6] = Inr u \<and> normal_form u) \<and>
   (\<exists>r. CharSet_intersect set_1_3_6_8 (OfSet set_2_6) = Inr r \<and> normal_form r) \<and>
   (\<exists>r. CharSet_without set_1_3_6_8 (OfRanges [\<lparr>min_r = 2, max_r = 6\<rparr>]) = Inr r \<and> normal_form r)"
proof -
  have n: "normal_form set_1_3_6_8"
    by (simp add: set_1_3_6_8_def normal_form_def sorted_by_min_def in_bounds_def valid_range_def
        disjoint_ranges_def)
  have a: "arg_normal (OfSet set_2_6)" "arg_normal (OfRanges [\<lparr>min_r = 2, max_r = 6\<rparr>])"
    by (simp_all add: arg_normal_def set_2_6_def normal_form_def sorted_by_min_def in_bounds_def
        valid_range_def)
  have m: "0 \<le> maximum set_1_3_6_8" by (simp add: set_1_3_6_8_def)
  have u: "CharSet_union set_1_3_6_8 [OfSet set_2_6] = Inr \<lparr>maximum = 10, ranges = [\<lparr>min_r = 1, max_r = 8\<rparr>]\<rparr>"
    by code_simp
  have i: "CharSet_intersect set_1_3_6_8 (OfSet set_2_6) =
      Inr \<lparr>maximum = 10, ranges = [\<lparr>min_r = 2, max_r = 3\<rparr>, \<lparr>min_r = 6, max_r = 6\<rparr>]\<rparr>"
    by code_simp
  have w: "CharSet_without set_1_3_6_8 (OfRanges [\<lparr>min_r = 2, max_r = 6\<rparr>]) =
      Inr \<lparr>maximum = 10, ranges = [\<lparr>min_r = 1, max_r = 1\<rparr>, \<lparr>min_r = 7, max_r = 8\<rparr>]\<rparr>"
    by code_simp
  have l: "list_all arg_normal [OfSet set_2_6]" using a by simp
  from operations_keep_normal_form [OF n] n m a l u i w show ?thesis
    by blast
qed

text \<open>
  C3, as the claim states it, fails: \<open>isSupersetOf\<close> between the empty sets of
  \<open>maximum\<close> 1 and 2 returns \<open>true\<close>; it throws nothing.
\<close>

theorem every_binary_operation_fails_counterexample:
  "maximum (CharSet_empty 1) \<noteq> maximum (CharSet_empty 2) \<and>
   call_binary Op_isSupersetOf (CharSet_empty 1) (CharSet_empty 2) = Inr (BoolResult True)"
  by (simp add: call_binary_def isSupersetOf_def CharSet_empty_def)

text \<open>
  C3, amended. Between two sets of different \<open>maximum\<close>, \<open>union\<close>, \<open>intersect\<close> and
  \<open>without\<close> fail with the error of \<open>checkCompatibility\<close>; \<open>isSupersetOf\<close>, \<open>isSubsetOf\<close>,
  \<open>isDisjointWith\<close>, \<open>commonCharacter\<close>, \<open>equals\<close> and \<open>compare\<close> do not fail (\<open>equals\<close>
  returns \<open>false\<close>, \<open>compare\<close> the difference of the two \<open>maximum\<close>). Between two sets of
  equal \<open>maximum\<close> none of the nine operations fails.
\<close>

theorem binary_operations_domain_mismatch:
  "(maximum a \<noteq> maximum b \<longrightarrow>
      (if checks_compatibility oper
       then call_binary oper a b = Inl (RangeError_maximum (maximum b) (maximum a))
       else \<exists>r. call_binary oper a b = Inr r) \<and>
      call_binary Op_equals a b = Inr (BoolResult False) \<and>
      call_binary Op_compare a b = Inr (NumberResult (maximum a - maximum b))) \<and>
   (maximum a = maximum b \<longrightarrow> (\<exists>r. call_binary oper a b = Inr r))"
proof -
  have ne: "call_binary oper a b = Inl (RangeError_maximum (maximum b) (maximum a))"
    if "maximum a \<noteq> maximum b" "checks_compatibility oper"
    using that
    by (auto simp: checks_compatibility_def call_binary_def CharSet_union_def CharSet_intersect_def
        CharSet_without_def other_set_def checkCompatibility_def)
  have nc: "\<exists>r. call_binary oper a b = Inr r" if "\<not> checks_compatibility oper"
    using that by (cases oper) (auto simp: checks_compatibility_def call_binary_def)
  have eq: "\<exists>r. call_binary oper a b = Inr r" if "maximum a = maximum b"
    using union_single_ok[OF that] intersect_ok[OF that] without_ok[OF that]
    by (cases oper) (auto simp: call_binary_def)
  have e: "call_binary Op_equals a b = Inr (BoolResult False)"
    "call_binary Op_compare a b = Inr (NumberResult (maximum a - maximum b))"
    if "maximum a \<noteq> maximum b"
    using that by (auto simp: call_binary_def CharSet_equals_def CharSet_compare_def)
  show ?thesis using ne nc eq e by auto
qed

theorem binary_operations_domain_mismatch_witness:
  "maximum (CharSet_all 1) \<noteq> maximum set_2_6 \<and>
   call_binary Op_without (CharSet_all 1) set_2_6 = Inl (RangeError_maximum 10 1) \<and>
   (\<exists>r. call_binary Op_isDisjointWith (CharSet_all 1) set_2_6 = Inr r) \<and>
   call_binary Op_compare (CharSet_all 1) set_2_6 = Inr (NumberResult (- 9)) \<and>
   maximum set_1_3_6_8 = maximum set_2_6 \<and>
   (\<exists>r. call_binary Op_without set_1_3_6_8 set_2_6 = Inr r)"
  using binary_operations_domain_mismatch [of "CharSet_all 1" set_2_6 Op_without]
    binary_operations_domain_mismatch [of "CharSet_all 1" set_2_6 Op_isDisjointWith]
    binary_operations_domain_mismatch [of set_1_3_6_8 set_2_6 Op_without]
  by (simp add: checks_compatibility_def CharSet_all_def set_2_6_def set_1_3_6_8_def)

text \<open>
  C4. The claim fails on a set that breaks the documented invariant of \<open>ranges\<close>, and
  the code builds such a set: \<open>CharSet.all(-1)\<close> is the single range \<open>[0, -1]\<close>
  (\<open>CharSet.all\<close> does not look at the sign of \<open>maximum\<close>). With \<open>a = b = CharSet.all(-1)\<close>,
  \<open>a.isSupersetOf(b)\<close> is \<open>true\<close> and \<open>a.union(b).equals(a)\<close> is \<open>true\<close>, but
  \<open>b.without(a)\<close> is the range \<open>[0, -1]\<close> again, which is not empty.
\<close>

theorem superset_equivalence_fails_at_negative_maximum:
  "maximum (CharSet_all (- 1)) = maximum (CharSet_all (- 1)) \<and>
   \<not> normal_form (CharSet_all (- 1)) \<and>
   isSupersetOf (CharSet_all (- 1)) (SetArg (CharSet_all (- 1))) \<and>
   CharSet_without (CharSet_all (- 1)) (OfSet (CharSet_all (- 1))) =
     Inr \<lparr>maximum = - 1, ranges = [\<lparr>min_r = 0, max_r = - 1\<rparr>]\<rparr> \<and>
   \<not> isEmpty \<lparr>maximum = - 1, ranges = [\<lparr>min_r = 0, max_r = - 1\<rparr>]\<rparr> \<and>
   CharSet_union (CharSet_all (- 1)) [OfSet (CharSet_all (- 1))] =
     Inr \<lparr>maximum = - 1, ranges = [\<lparr>min_r = 0, max_r = - 1\<rparr>]\<rparr> \<and>
   CharSet_equals \<lparr>maximum = - 1, ranges = [\<lparr>min_r = 0, max_r = - 1\<rparr>]\<rparr> (CharSet_all (- 1))"
proof -
  have n: "\<not> normal_form (CharSet_all (- 1))"
    by (simp add: normal_form_def CharSet_all_def in_bounds_def valid_range_def)
  have s: "isSupersetOf (CharSet_all (- 1)) (SetArg (CharSet_all (- 1)))"
    by code_simp
  have w: "CharSet_without (CharSet_all (- 1)) (OfSet (CharSet_all (- 1))) =
     Inr \<lparr>maximum = - 1, ranges = [\<lparr>min_r = 0, max_r = - 1\<rparr>]\<rparr>"
    by code_simp
  have u: "CharSet_union (CharSet_all (- 1)) [OfSet (CharSet_all (- 1))] =
     Inr \<lparr>maximum = - 1, ranges = [\<lparr>min_r = 0, max_r = - 1\<rparr>]\<rparr>"
    by code_simp
  have e: "CharSet_equals \<lparr>maximum = - 1, ranges = [\<lparr>min_r = 0, max_r = - 1\<rparr>]\<rparr> (CharSet_all (- 1))"
    by (simp add: CharSet_equals_eq CharSet_all_def)
  show ?thesis using n s w u e by (simp add: isEmpty_def)
qed

text \<open>
  On sets that satisfy the invariant the equivalence holds. For two sets \<open>a\<close>, \<open>b\<close> in
  normal form with equal \<open>maximum\<close>, \<open>b.without(a)\<close> and \<open>a.union(b)\<close> return, and the
  three statements are equivalent: \<open>a.isSupersetOf(b)\<close>; \<open>b.without(a).isEmpty\<close>;
  \<open>a.union(b).equals(a)\<close>.
\<close>

theorem superset_without_union_equivalent:
  assumes "normal_form a" "normal_form b" "maximum a = maximum b"
  shows "\<exists>w u. CharSet_without b (OfSet a) = Inr w \<and> CharSet_union a [OfSet b] = Inr u \<and>
     (isSupersetOf a (SetArg b) \<longleftrightarrow> isEmpty w) \<and> (isEmpty w \<longleftrightarrow> CharSet_equals u a)"
proof -
  have na: "nfl 0 (ranges a)" and nb: "nfl 0 (ranges b)"
    using assms(1,2) by (simp_all add: normal_form_nfl)
  let ?wr = "withoutRanges (ranges b) (ranges a)"
  let ?w = "if length ?wr = 0 then CharSet_empty (maximum b) else \<lparr>maximum = maximum b, ranges = ?wr\<rparr>"
  let ?u = "if length (ranges b) = 0 then a
            else \<lparr>maximum = maximum a, ranges = unionRanges (ranges a) (ranges b)\<rparr>"
  have w: "CharSet_without b (OfSet a) = Inr ?w"
    using assms(3) by (simp add: CharSet_without_def other_set_def checkCompatibility_def Let_def)
  have u: "CharSet_union a [OfSet b] = Inr ?u"
    using assms(3) by (simp add: CharSet_union_def checkCompatibility_def)
  have sup: "isSupersetOf a (SetArg b) \<longleftrightarrow> chars (ranges b) \<subseteq> chars (ranges a)"
    using isSupersetOf_loop_chars[OF na nb] by (simp add: isSupersetOf_def)
  have "isEmpty ?w \<longleftrightarrow> ?wr = []" by (simp add: isEmpty_def CharSet_empty_def)
  also have "\<dots> \<longleftrightarrow> chars ?wr = {}"
    using nfl_chars_empty[OF withoutRanges_nfl[OF nb na]] by simp
  also have "\<dots> \<longleftrightarrow> chars (ranges b) \<subseteq> chars (ranges a)"
    using withoutRanges_chars[OF nb na] by auto
  finally have emp: "isEmpty ?w \<longleftrightarrow> chars (ranges b) \<subseteq> chars (ranges a)" .
  have equ: "CharSet_equals ?u a \<longleftrightarrow> chars (ranges b) \<subseteq> chars (ranges a)"
  proof (cases "length (ranges b) = 0")
    case True
    then show ?thesis by (simp add: CharSet_equals_eq)
  next
    case False
    have "CharSet_equals ?u a \<longleftrightarrow> unionRanges (ranges a) (ranges b) = ranges a"
      using False by (cases a) (auto simp: CharSet_equals_eq)
    also have "\<dots> \<longleftrightarrow> chars (unionRanges (ranges a) (ranges b)) = chars (ranges a)"
      using nfl_unique[OF unionRanges_nfl[OF na nb] na] by auto
    also have "\<dots> \<longleftrightarrow> chars (ranges b) \<subseteq> chars (ranges a)"
      using unionRanges_chars[OF na nb] by auto
    finally show ?thesis .
  qed
  show ?thesis using w u sup emp equ by blast
qed

theorem superset_without_union_equivalent_witness:
  "normal_form set_1_3_6_8 \<and> normal_form set_2_6 \<and> maximum set_1_3_6_8 = maximum set_2_6 \<and>
   (\<exists>w u. CharSet_without set_2_6 (OfSet set_1_3_6_8) = Inr w \<and>
      CharSet_union set_1_3_6_8 [OfSet set_2_6] = Inr u \<and>
      isSupersetOf set_1_3_6_8 (SetArg set_2_6) = isEmpty w \<and> isEmpty w = CharSet_equals u set_1_3_6_8)"
proof -
  have a: "normal_form set_1_3_6_8"
    by (simp add: set_1_3_6_8_def normal_form_def sorted_by_min_def in_bounds_def valid_range_def
        disjoint_ranges_def)
  have b: "normal_form set_2_6"
    by (simp add: set_2_6_def normal_form_def sorted_by_min_def in_bounds_def valid_range_def)
  have m: "maximum set_1_3_6_8 = maximum set_2_6" by (simp add: set_1_3_6_8_def set_2_6_def)
  show ?thesis using superset_without_union_equivalent [OF a b m] a b m by simp
qed

section \<open>The claims about the graph builder and the simplifier\<close>

text \<open>
  C6, as the claim states it, fails: of the two out transitions of the state, the one
  with the empty set is sorted last (\<open>Number(a.isEmpty) - Number(b.isEmpty)\<close> is positive
  for an empty \<open>a\<close> and a non-empty \<open>b\<close>).
\<close>

theorem empty_transitions_first_counterexample:
  "\<not> empties_first (sorted_out example_out 0)"
proof -
  have "sorted_out example_out 0 =
     [(2, \<lparr>maximum = 65535, ranges = [\<lparr>min_r = 98, max_r = 98\<rparr>]\<rparr>), (1, CharSet_empty 65535)]"
    by code_simp
  then show ?thesis by (simp add: isEmpty_def CharSet_empty_def)
qed

text \<open>
  C6, amended. In the graph builder, for every visited state, the out transitions whose
  set is non-empty are sorted (and so linked, \<open>link_out\<close> walking the sorted array in
  order) before the transitions whose set is empty.
\<close>

theorem out_transitions_nonempty_first:
  "nonempties_first (sorted_out iter n)"
  unfolding sorted_out_def Array_sort_def by (rule foldl_insert_nonempties_first) simp

theorem out_transitions_nonempty_first_witness:
  "nonempties_first (sorted_out example_out 0) \<and>
   sorted_out example_out 0 =
     [(2, \<lparr>maximum = 65535, ranges = [\<lparr>min_r = 98, max_r = 98\<rparr>]\<rparr>), (1, CharSet_empty 65535)]"
proof -
  have "sorted_out example_out 0 =
     [(2, \<lparr>maximum = 65535, ranges = [\<lparr>min_r = 98, max_r = 98\<rparr>]\<rparr>), (1, CharSet_empty 65535)]"
    by code_simp
  then show ?thesis using out_transitions_nonempty_first [of example_out 0] by simp
qed

text \<open>
  C7, as the claim states it, fails: one pass turns \<open>(|a)\<close>, of four nodes, into \<open>a?\<close>,
  of five (\<open>optimizeEmptyString\<close> drops the empty alternative and wraps the rest in a new
  concatenation and a new quantifier).
\<close>

theorem pass_grows_node_count_counterexample:
  "optimize empty_or_a = (True, optional_a) \<and> count_nodes optional_a > count_nodes empty_or_a"
proof -
  have "optimize empty_or_a = (True, optional_a)" by code_simp
  moreover have "count_nodes optional_a > count_nodes empty_or_a"
    by (simp add: count_nodes_def optional_a_def empty_or_a_def char_a_def)
  ultimately show ?thesis by simp
qed

text \<open>
  C7, amended. Once a pass produces no change (\<open>optimize\<close> returns \<open>false\<close>), the
  expression is what it was before the pass, with the same number of nodes, and one
  further pass is a no-op: it returns \<open>false\<close> and leaves the expression unchanged.
\<close>

theorem pass_without_change_is_fixed_point:
  "optimize e = (False, e') \<Longrightarrow>
     e' = e \<and> count_nodes e' = count_nodes e \<and> optimize e' = (False, e')"
  using optimize_unchanged by auto

theorem pass_without_change_is_fixed_point_witness:
  "optimize optional_a = (False, optional_a) \<and> count_nodes optional_a = 5"
proof -
  have o: "optimize optional_a = (False, optional_a)" by code_simp
  have "count_nodes optional_a = 5" by (simp add: count_nodes_def optional_a_def char_a_def)
  then show ?thesis using pass_without_change_is_fixed_point [OF o] o by simp
qed

subsection \<open>The ceiling on the number of nodes\<close>

text \<open>
  C8, as the claim states it, fails: the factory does not count every node that a
  conversion constructs. For the automaton of the empty word and \<open>a\<close> with
  \<open>maximumNodes = 7\<close>, state elimination ends with the counter at 7, the ceiling, and
  the tree \<open>(|a)\<close>; the simplifier then builds a quantifier and a concatenation by
  object literals (\<open>optimizeEmptyString\<close>), which no counter sees, and the conversion
  returns \<open>a?\<close>, a tree with one node more: it has constructed more than 7 nodes.
\<close>

theorem simplifier_nodes_not_counted_counterexample:
  "stateElimination empty_or_a_fa 7 = Some (Inr (empty_or_a, \<lparr>counter = 7, max_tc = 7\<rparr>)) \<and>
   faToRegex empty_or_a_fa \<lparr>maximumNodes = Some 7, maximumOptimizationPasses = None\<rparr> = Some (Inr optional_a) \<and>
   int (counter \<lparr>counter = 7, max_tc = 7\<rparr>) + (int (count_nodes optional_a) - int (count_nodes empty_or_a)) > 7"
proof -
  have "stateElimination empty_or_a_fa 7 = Some (Inr (empty_or_a, \<lparr>counter = 7, max_tc = 7\<rparr>))"
    by code_simp
  moreover have "faToRegex empty_or_a_fa \<lparr>maximumNodes = Some 7, maximumOptimizationPasses = None\<rparr> = Some (Inr optional_a)"
    by code_simp
  moreover have "count_nodes optional_a = 5" "count_nodes empty_or_a = 4"
    by (simp_all add: count_nodes_def optional_a_def empty_or_a_def char_a_def)
  ultimately show ?thesis by simp
qed

text \<open>
  C8, amended. Every method of the factory (\<open>concat\<close>, \<open>emptyConcat\<close>, \<open>alter\<close>,
  \<open>emptyAlter\<close>, \<open>expression\<close>, \<open>emptyExpression\<close>, \<open>char\<close>, \<open>quant\<close>, \<open>quantStar\<close>,
  \<open>quantPlus\<close>) counts the one node it builds, and \<open>copy\<close> counts every node of the
  tree it copies and returns that tree: each fails with \<open>TooManyNodesError\<close> exactly
  when the count would exceed the ceiling. Along a state elimination that returns, the
  ceiling stays \<open>maxAstNodes\<close> and the counter only grows: it is positive after
  \<open>createNodeList\<close>, not smaller after \<open>eliminateStates\<close>, greater at the end, and at
  most \<open>maxAstNodes\<close> there; so every conversion that returns has built at most
  \<open>maximumNodes\<close> nodes (by default 10000) through the factory. The nodes that the
  simplifier builds are not counted.
\<close>

theorem factory_counter_within_maximumNodes:
  "tc_concat es tc = counted tc 1 (Concatenation es) \<and>
   tc_emptyConcat tc = counted tc 1 (Concatenation []) \<and>
   tc_alter alts tc = counted tc 1 (Alternation alts) \<and>
   tc_emptyAlter tc = counted tc 1 (Alternation []) \<and>
   tc_expression alts tc = counted tc 1 (Expression alts) \<and>
   tc_emptyExpression tc = counted tc 1 (Expression []) \<and>
   tc_char cs tc = counted tc 1 (CharacterClass cs) \<and>
   tc_quant alts mn mx tc = counted tc 1 (Quantifier alts mn mx) \<and>
   tc_quantStar alts tc = counted tc 1 (Quantifier alts 0 \<infinity>) \<and>
   tc_quantPlus alts tc = counted tc 1 (Quantifier alts 1 \<infinity>) \<and>
   (assertion_free t \<longrightarrow> tc_copy t tc = counted tc (count_nodes_transition t) t) \<and>
   (stateElimination iter m = Some (Inr (E0, tc2)) \<longrightarrow>
      max_tc tc2 = m \<and> int (counter tc2) \<le> m \<and>
      (\<exists>r tc1. createNodeList iter (TransitionCreator_new m) = Some (Inr (r, tc1)) \<and>
         max_tc tc1 = m \<and> 0 < counter tc1 \<and>
         (case r of
            None \<Rightarrow> counter tc2 = counter tc1 + 1
          | Some nl \<Rightarrow> \<exists>st. eliminateStates nl tc1 = Some (Inr st) \<and> max_tc (tc_e st) = m \<and>
              counter tc1 \<le> counter (tc_e st) \<and> counter (tc_e st) < counter tc2))) \<and>
   (faToRegex iter options = Some (Inr E) \<longrightarrow>
      (\<exists>E1 tc3. stateElimination iter (maxAstNodes_of options) = Some (Inr (E1, tc3)) \<and>
         int (counter tc3) \<le> maxAstNodes_of options))"
proof -
  have F: "assertion_free t \<longrightarrow> tc_copy t tc = counted tc (count_nodes_transition t) t"
    using tc_copy_exact by blast
  have G: "stateElimination iter m = Some (Inr (E0, tc2)) \<longrightarrow>
      max_tc tc2 = m \<and> int (counter tc2) \<le> m \<and>
      (\<exists>r tc1. createNodeList iter (TransitionCreator_new m) = Some (Inr (r, tc1)) \<and>
         max_tc tc1 = m \<and> 0 < counter tc1 \<and>
         (case r of
            None \<Rightarrow> counter tc2 = counter tc1 + 1
          | Some nl \<Rightarrow> \<exists>st. eliminateStates nl tc1 = Some (Inr st) \<and> max_tc (tc_e st) = m \<and>
              counter tc1 \<le> counter (tc_e st) \<and> counter (tc_e st) < counter tc2))"
    using stateElimination_counter[of iter m E0 tc2] stateElimination_chain[of iter m E0 tc2]
    by blast
  have H: "faToRegex iter options = Some (Inr E) \<longrightarrow>
      (\<exists>E1 tc3. stateElimination iter (maxAstNodes_of options) = Some (Inr (E1, tc3)) \<and>
         int (counter tc3) \<le> maxAstNodes_of options)"
    using faToRegex_stateElimination stateElimination_counter by blast
  show ?thesis
    by (intro conjI factory_counted F G H)
qed

theorem factory_counter_within_maximumNodes_witness:
  "assertion_free (Elem char_a) \<and> count_nodes_transition (Elem char_a) = 1 \<and>
   tc_copy (Elem char_a) \<lparr>counter = 0, max_tc = 7\<rparr> = Inr (Elem char_a, \<lparr>counter = 1, max_tc = 7\<rparr>) \<and>
   tc_quantStar [] \<lparr>counter = 6, max_tc = 7\<rparr> = Inr (Quantifier [] 0 \<infinity>, \<lparr>counter = 7, max_tc = 7\<rparr>) \<and>
   tc_char (CharSet_empty 0) \<lparr>counter = 7, max_tc = 7\<rparr> = Inl (TooManyNodesError 7) \<and>
   stateElimination empty_or_a_fa 7 = Some (Inr (empty_or_a, \<lparr>counter = 7, max_tc = 7\<rparr>)) \<and>
   stateElimination empty_or_a_fa 6 = Some (Inl (TooManyNodesError 6)) \<and>
   (\<exists>r tc1. createNodeList empty_or_a_fa (TransitionCreator_new 7) = Some (Inr (r, tc1)) \<and>
      0 < counter tc1 \<and> counter tc1 < 7) \<and>
   faToRegex empty_or_a_fa \<lparr>maximumNodes = Some 7, maximumOptimizationPasses = None\<rparr> = Some (Inr optional_a) \<and>
   maxAstNodes_of \<lparr>maximumNodes = Some 7, maximumOptimizationPasses = None\<rparr> = 7"
proof -
  have af: "assertion_free (Elem char_a)" by (simp add: assertion_free_def char_a_def)
  have cn: "count_nodes_transition (Elem char_a) = 1"
    by (simp add: count_nodes_transition_def char_a_def)
  have b: "stateElimination empty_or_a_fa 7 = Some (Inr (empty_or_a, \<lparr>counter = 7, max_tc = 7\<rparr>))"
    by code_simp
  have b': "stateElimination empty_or_a_fa 6 = Some (Inl (TooManyNodesError 6))"
    by code_simp
  have c: "faToRegex empty_or_a_fa \<lparr>maximumNodes = Some 7, maximumOptimizationPasses = None\<rparr> = Some (Inr optional_a)"
    by code_simp
  have d: "maxAstNodes_of \<lparr>maximumNodes = Some 7, maximumOptimizationPasses = None\<rparr> = 7"
    by (simp add: maxAstNodes_of_def)
  note i1 = factory_counter_within_maximumNodes [where tc = "\<lparr>counter = 0, max_tc = 7\<rparr>"
      and t = "Elem char_a" and iter = empty_or_a_fa and m = 7 and ?E0.0 = empty_or_a
      and ?tc2.0 = "\<lparr>counter = 7, max_tc = 7\<rparr>"
      and options = "\<lparr>maximumNodes = Some 7, maximumOptimizationPasses = None\<rparr>" and E = optional_a]
  note i2 = factory_counter_within_maximumNodes [where tc = "\<lparr>counter = 6, max_tc = 7\<rparr>" and alts = "[]"]
  note i3 = factory_counter_within_maximumNodes [where tc = "\<lparr>counter = 7, max_tc = 7\<rparr>"
      and cs = "CharSet_empty 0"]
  from i1 af cn have copy: "tc_copy (Elem char_a) \<lparr>counter = 0, max_tc = 7\<rparr> =
      Inr (Elem char_a, \<lparr>counter = 1, max_tc = 7\<rparr>)"
    by (simp add: counted_def)
  have k6: "counted \<lparr>counter = 6, max_tc = 7\<rparr> 1 x = Inr (x, \<lparr>counter = 7, max_tc = 7\<rparr>)" for x :: element
    by (simp add: counted_def)
  have k7: "counted \<lparr>counter = 7, max_tc = 7\<rparr> 1 x = Inl (TooManyNodesError 7)" for x :: element
    by (simp add: counted_def)
  from i2 have star: "tc_quantStar [] \<lparr>counter = 6, max_tc = 7\<rparr> =
      Inr (Quantifier [] 0 \<infinity>, \<lparr>counter = 7, max_tc = 7\<rparr>)"
    unfolding k6 by blast
  from i3 have char: "tc_char (CharSet_empty 0) \<lparr>counter = 7, max_tc = 7\<rparr> = Inl (TooManyNodesError 7)"
    unfolding k7 by blast
  from i1 b obtain r tc1 where
    ch: "createNodeList empty_or_a_fa (TransitionCreator_new 7) = Some (Inr (r, tc1))" "0 < counter tc1"
      "case r of
         None \<Rightarrow> counter \<lparr>counter = 7, max_tc = 7\<rparr> = counter tc1 + 1
       | Some nl \<Rightarrow> \<exists>st. eliminateStates nl tc1 = Some (Inr st) \<and> max_tc (tc_e st) = 7 \<and>
           counter tc1 \<le> counter (tc_e st) \<and> counter (tc_e st) < counter \<lparr>counter = 7, max_tc = 7\<rparr>"
    by blast
  have "counter tc1 < 7" using ch(3) by (cases r) auto
  with ch have chain: "\<exists>r tc1. createNodeList empty_or_a_fa (TransitionCreator_new 7) = Some (Inr (r, tc1)) \<and>
      0 < counter tc1 \<and> counter tc1 < 7"
    by blast
  show ?thesis using af cn copy star char b b' chain c d by simp
qed

subsection \<open>Automata without a reachable final state\<close>

text \<open>
  C5, as the claim states it, fails: the conversion of an automaton without a
  reachable final state can throw. The automaton \<open>no_final_fa\<close> has two states, one
  transition and no final state; with \<open>maximumNodes = 2\<close> the factory builds the
  concatenation of the temporary initial transition and the character class of the
  transition, and \<open>emptyExpression\<close>, the third node, throws \<open>TooManyNodesError\<close>.
\<close>

theorem no_final_small_ceiling_counterexample:
  "reachable no_final_fa = {0, 1} \<and> \<not> isFinal no_final_fa 0 \<and> \<not> isFinal no_final_fa 1 \<and>
   faToRegex no_final_fa \<lparr>maximumNodes = Some 2, maximumOptimizationPasses = None\<rparr> =
     Some (Inl (TooManyNodesError 2))"
proof -
  have "x \<in> {0, 1}" if "x \<in> reachable no_final_fa" for x
    using that by induction (auto simp: no_final_fa_def split: if_splits)
  moreover have "0 \<in> reachable no_final_fa"
    using reachable.initial[of no_final_fa] by (simp add: no_final_fa_def)
  moreover from this have "1 \<in> reachable no_final_fa"
    by (rule reachable.out) (simp add: no_final_fa_def)
  ultimately have "reachable no_final_fa = {0, 1}" by blast
  moreover have "faToRegex no_final_fa \<lparr>maximumNodes = Some 2, maximumOptimizationPasses = None\<rparr> =
     Some (Inl (TooManyNodesError 2))"
    by code_simp
  ultimately show ?thesis by (simp add: no_final_fa_def)
qed

text \<open>
  C5, amended. For every input automaton with finitely many reachable states, none of
  them final, \<open>faToRegex\<close> ends: it returns the expression without alternatives, or it
  throws \<open>TooManyNodesError\<close> or the error of \<open>linkNodes\<close> on two nodes that are already
  linked. It returns the expression without alternatives whenever no reachable state
  has two out transitions to the same state and the number of transitions of the
  reachable states, plus two, is at most the ceiling \<open>maximumNodes\<close>.
\<close>

theorem no_reachable_final_empty_expression:
  assumes "finite (reachable iter)" and "\<forall>n\<in>reachable iter. \<not> isFinal iter n"
  shows "(faToRegex iter options = Some (Inr (Expression []))
          \<or> faToRegex iter options = Some (Inl (TooManyNodesError (maxAstNodes_of options)))
          \<or> faToRegex iter options = Some (Inl AlreadyLinked)) \<and>
         ((\<forall>n\<in>reachable iter. distinct (map fst (getOut iter n))) \<and>
          int (\<Sum>n\<in>reachable iter. length (getOut iter n)) + 2 \<le> maxAstNodes_of options
          \<longrightarrow> faToRegex iter options = Some (Inr (Expression [])))"
  using faToRegex_no_final_cases[OF assms] faToRegex_no_final_ok[OF assms] by blast

theorem no_reachable_final_empty_expression_witness:
  "reachable no_final_fa = {0, 1} \<and>
   (\<Sum>n\<in>reachable no_final_fa. length (getOut no_final_fa n)) = 1 \<and>
   maxAstNodes_of \<lparr>maximumNodes = None, maximumOptimizationPasses = None\<rparr> = 10000 \<and>
   faToRegex no_final_fa \<lparr>maximumNodes = None, maximumOptimizationPasses = None\<rparr> = Some (Inr (Expression []))"
proof -
  have "x \<in> {0, 1}" if "x \<in> reachable no_final_fa" for x
    using that by induction (auto simp: no_final_fa_def split: if_splits)
  moreover have "0 \<in> reachable no_final_fa"
    using reachable.initial[of no_final_fa] by (simp add: no_final_fa_def)
  moreover from this have "1 \<in> reachable no_final_fa"
    by (rule reachable.out) (simp add: no_final_fa_def)
  ultimately have r: "reachable no_final_fa = {0, 1}" by blast
  have s: "(\<Sum>n\<in>reachable no_final_fa. length (getOut no_final_fa n)) = 1"
    unfolding r by (simp add: no_final_fa_def)
  have m: "maxAstNodes_of \<lparr>maximumNodes = None, maximumOptimizationPasses = None\<rparr> = 10000"
    by (simp add: maxAstNodes_of_def)
  have fin: "finite (reachable no_final_fa)" unfolding r by simp
  have nf: "\<forall>n\<in>reachable no_final_fa. \<not> isFinal no_final_fa n" by (simp add: no_final_fa_def)
  have d: "\<forall>n\<in>reachable no_final_fa. distinct (map fst (getOut no_final_fa n))"
    unfolding r by (simp add: no_final_fa_def)
  from no_reachable_final_empty_expression [OF fin nf,
      of "\<lparr>maximumNodes = None, maximumOptimizationPasses = None\<rparr>"] d s m
  have "faToRegex no_final_fa \<lparr>maximumNodes = None, maximumOptimizationPasses = None\<rparr> = Some (Inr (Expression []))"
    by simp
  then show ?thesis using r s m by simp
qed

end
